theory Spec2Isabelle
  imports Main "HOL-Library.Sublist"
begin

text \<open>
  The balance accumulator of \<^verbatim>\<open>services/balance_accumulator_handler.go\<close>: the two passes
  over the staging tables, the accumulation loop, the retry loop of the background task and
  the admission of \<^verbatim>\<open>Run\<close>. The database is a record of tables, each a list of rows; a
  transaction works on a copy of the tables that only \<^verbatim>\<open>Commit\<close> publishes; every driver
  call can fail.
\<close>

section \<open>Data model\<close>

text \<open>
  A Go \<^verbatim>\<open>error\<close> is identified with its message (\<^verbatim>\<open>err.Error()\<close>); \<^verbatim>\<open>nil\<close> is
  \<open>None\<close> in an \<open>error option\<close> and \<open>Inr\<close> in a result \<open>error + 'a\<close>.
\<close>

type_synonym error = string

text \<open>\<^verbatim>\<open>var RowLintValue = 100\<close>\<close>

definition RowLintValue :: nat where
  "RowLintValue = 100"

datatype processType = processTypeIn | processTypeOut

text \<open>Rows of the tables the handler's SQL statements read and write.\<close>

record avm_outputs_row =
  out_id :: string
  out_chain_id :: string
  out_asset_id :: string
  out_transaction_id :: string
  out_amount :: int

record avm_output_addresses_row =
  adr_output_id :: string
  adr_address :: string

record output_addresses_accumulate_row =
  oa_id :: string
  oa_address :: string
  oa_processed_out :: nat
  oa_processed_in :: nat

record output_txs_accumulate_row =
  ot_id :: string
  ot_chain_id :: string
  ot_asset_id :: string
  ot_address :: string
  ot_transaction_id :: string
  ot_processed :: nat

text \<open>
  The struct \<^verbatim>\<open>OutputAddressAccumulate\<close> as the claim query of \<^verbatim>\<open>processOutputs\<close> fills it:
  the columns \<^verbatim>\<open>id\<close> and \<^verbatim>\<open>address\<close>.
\<close>

record OutputAddressAccumulate =
  rowID :: string
  rowAddress :: string

text \<open>
  The struct \<^verbatim>\<open>AccumulateBalances\<close>; it is also the row type of the table
  \<^verbatim>\<open>accumulate_balances\<close>.
\<close>

record AccumulateBalances =
  ID :: string
  ChainID :: string
  AssetID :: string
  Address :: string
  TransactionCount :: int
  TotalReceived :: int
  TotalSent :: int
  UtxoCount :: int

record database =
  output_addresses_accumulate :: "output_addresses_accumulate_row list"
  output_txs_accumulate :: "output_txs_accumulate_row list"
  avm_outputs :: "avm_outputs_row list"
  avm_output_addresses :: "avm_output_addresses_row list"
  avm_outputs_redeeming :: "string list"
  accumulate_balances :: "AccumulateBalances list"

text \<open>
  The database session \<^verbatim>\<open>sess\<close>: the committed tables, the outcome of the driver calls
  still to come (\<open>Some e\<close> makes the next call fail with \<open>e\<close>; an exhausted list means
  no further failure), and how many transactions were committed and rolled back.
\<close>

type_synonym faults = "error option list"

record session =
  tables :: database
  pending :: faults
  commits :: nat
  rollbacks :: nat

fun driver :: "faults \<Rightarrow> error option \<times> faults" where
  "driver [] = (None, [])"
| "driver (f # fs) = (f, fs)"

text \<open>A statement executed inside a transaction: it fails, or it changes the working copy.\<close>

definition exec :: "(database \<Rightarrow> database) \<Rightarrow> faults \<Rightarrow> database \<Rightarrow> faults \<times> (error + database)" where
  "exec stmt fs tx =
     (case driver fs of
        (Some e, fs') \<Rightarrow> (fs', Inl e)
      | (None, fs') \<Rightarrow> (fs', Inr (stmt tx)))"

section \<open>Collaborators that are not part of the handler\<close>

text \<open>
  Modelled from the spec: the balance key is a deterministic hash over
  \<open>(chain_id, asset_id, address)\<close> whose computation may fail. The hash is a parameter \<open>H\<close>
  of the model.
\<close>

type_synonym hash = "string \<Rightarrow> string \<Rightarrow> string \<Rightarrow> error + string"

text \<open>
  Modelled from the spec: \<^verbatim>\<open>AccumulateBalances.ComputeID\<close> stores the balance key in the
  field \<^verbatim>\<open>ID\<close>, or returns the error of the hash.
\<close>

definition ComputeID :: "hash \<Rightarrow> AccumulateBalances \<Rightarrow> error + AccumulateBalances" where
  "ComputeID H b =
     (case H (ChainID b) (AssetID b) (Address b) of
        Inl e \<Rightarrow> Inl e
      | Inr k \<Rightarrow> Inr (b\<lparr>ID := k\<rparr>))"

text \<open>
  Modelled from the spec: the insert statement of \<^verbatim>\<open>Persist.InsertAccumulateBalances\<close>
  creates the aggregate row on the first sighting of its key, with all counters zero; on a
  duplicate key it preserves the existing row.
\<close>

definition seedRow :: "AccumulateBalances \<Rightarrow> database \<Rightarrow> database" where
  "seedRow b tx =
     (if ID b \<in> set (map ID (accumulate_balances tx)) then tx
      else tx\<lparr>accumulate_balances := accumulate_balances tx @
             [b\<lparr>TransactionCount := 0, TotalReceived := 0, TotalSent := 0, UtxoCount := 0\<rparr>]\<rparr>)"

text \<open>
  Modelled from the spec: \<^verbatim>\<open>Persist.InsertAccumulateBalances\<close> is one driver call; a
  duplicate key is a success, any other failure is propagated.
\<close>

definition InsertAccumulateBalances ::
  "AccumulateBalances \<Rightarrow> faults \<Rightarrow> database \<Rightarrow> faults \<times> (error + database)" where
  "InsertAccumulateBalances b fs tx = exec (seedRow b) fs tx"

text \<open>Modelled from the spec: \<^verbatim>\<open>db.DeadlockDBErrorMessage\<close> is \<^verbatim>\<open>"Deadlock found"\<close>.\<close>

definition DeadlockDBErrorMessage :: string where
  "DeadlockDBErrorMessage = ''Deadlock found''"

text \<open>\<^verbatim>\<open>strings.Contains(s, substr)\<close>\<close>

fun Contains :: "string \<Rightarrow> string \<Rightarrow> bool" where
  "Contains [] substr = (substr = [])"
| "Contains (c # s) substr = (prefix substr (c # s) \<or> Contains s substr)"

section \<open>The SQL statements\<close>

text \<open>
  The claim query of \<^verbatim>\<open>processOutputs\<close>: the staging rows whose flag is 0, joined with
  \<^verbatim>\<open>avm_outputs\<close> (and with \<^verbatim>\<open>avm_outputs_redeeming\<close> for the IN direction), at most
  \<^verbatim>\<open>RowLimit\<close> of them, in scan order.
\<close>

definition claimOutputs :: "processType \<Rightarrow> database \<Rightarrow> OutputAddressAccumulate list" where
  "claimOutputs typ db =
     (case typ of
        processTypeOut \<Rightarrow>
          take RowLintValue
            [\<lparr>rowID = oa_id r, rowAddress = oa_address r\<rparr>.
               r \<leftarrow> output_addresses_accumulate db,
               u \<leftarrow> avm_outputs db, oa_id r = out_id u,
               oa_processed_out r = 0]
      | processTypeIn \<Rightarrow>
          take RowLintValue
            [\<lparr>rowID = oa_id r, rowAddress = oa_address r\<rparr>.
               r \<leftarrow> output_addresses_accumulate db,
               u \<leftarrow> avm_outputs db, oa_id r = out_id u,
               x \<leftarrow> avm_outputs_redeeming db, oa_id r = x,
               oa_processed_in r = 0])"

text \<open>
  The aggregation query: \<^verbatim>\<open>avm_outputs\<close> joined with \<^verbatim>\<open>avm_output_addresses\<close>, restricted to
  one \<open>(id, address)\<close> and grouped by \<open>(chain_id, address, asset_id)\<close>.
\<close>

definition selectBalances :: "database \<Rightarrow> string \<Rightarrow> string \<Rightarrow> AccumulateBalances list" where
  "selectBalances db i a =
     (let joined = [(out_chain_id u, adr_address x, out_asset_id u, out_transaction_id u, out_amount u).
                      u \<leftarrow> avm_outputs db,
                      x \<leftarrow> avm_output_addresses db, out_id u = adr_output_id x,
                      out_id u = i \<and> adr_address x = a]
      in map (\<lambda>(c, ad, s).
                let grp = filter (\<lambda>(c', ad', s', t, m). (c', ad', s') = (c, ad, s)) joined
                in \<lparr>ID = [], ChainID = c, AssetID = s, Address = ad,
                    TransactionCount = int (length (remdups (map (\<lambda>(c', ad', s', t, m). t) grp))),
                    TotalReceived = sum_list (map (\<lambda>(c', ad', s', t, m). m) grp),
                    TotalSent = sum_list (map (\<lambda>(c', ad', s', t, m). m) grp),
                    UtxoCount = 0\<rparr>)
             (remdups (map (\<lambda>(c', ad', s', t, m). (c', ad', s')) joined)))"

text \<open>
  \<^verbatim>\<open>update accumulate_balances set utxo_count = utxo_count+1,
  total_received = total_received+b.TotalReceived where id=b.ID\<close>, and its IN counterpart.
\<close>

definition updateBalance :: "processType \<Rightarrow> AccumulateBalances \<Rightarrow> database \<Rightarrow> database" where
  "updateBalance typ b tx =
     tx\<lparr>accumulate_balances :=
          map (\<lambda>r. if ID r = ID b then
                     (case typ of
                        processTypeOut \<Rightarrow>
                          r\<lparr>UtxoCount := UtxoCount r + 1,
                            TotalReceived := TotalReceived r + TotalReceived b\<rparr>
                      | processTypeIn \<Rightarrow>
                          r\<lparr>UtxoCount := UtxoCount r - 1,
                            TotalSent := TotalSent r + TotalSent b\<rparr>)
                   else r)
              (accumulate_balances tx)\<rparr>"

text \<open>
  \<^verbatim>\<open>update output_addresses_accumulate set processed_out = 1 where id=? and address=?\<close>,
  and its IN counterpart.
\<close>

definition markOutput :: "processType \<Rightarrow> OutputAddressAccumulate \<Rightarrow> database \<Rightarrow> database" where
  "markOutput typ row tx =
     tx\<lparr>output_addresses_accumulate :=
          map (\<lambda>r. if oa_id r = rowID row \<and> oa_address r = rowAddress row then
                     (case typ of
                        processTypeOut \<Rightarrow> r\<lparr>oa_processed_out := 1\<rparr>
                      | processTypeIn \<Rightarrow> r\<lparr>oa_processed_in := 1\<rparr>)
                   else r)
              (output_addresses_accumulate tx)\<rparr>"

text \<open>The claim query of \<^verbatim>\<open>processTransactions\<close>.\<close>

definition claimTransactions :: "database \<Rightarrow> output_txs_accumulate_row list" where
  "claimTransactions db =
     take RowLintValue (filter (\<lambda>r. ot_processed r = 0) (output_txs_accumulate db))"

text \<open>\<^verbatim>\<open>update accumulate_balances set transaction_count = transaction_count+1 where id=?\<close>\<close>

definition updateTransactionCount :: "AccumulateBalances \<Rightarrow> database \<Rightarrow> database" where
  "updateTransactionCount b tx =
     tx\<lparr>accumulate_balances :=
          map (\<lambda>r. if ID r = ID b then r\<lparr>TransactionCount := TransactionCount r + 1\<rparr> else r)
              (accumulate_balances tx)\<rparr>"

text \<open>\<^verbatim>\<open>update output_txs_accumulate set processed=1 where id=?\<close>\<close>

definition markTransaction :: "output_txs_accumulate_row \<Rightarrow> database \<Rightarrow> database" where
  "markTransaction row tx =
     tx\<lparr>output_txs_accumulate :=
          map (\<lambda>r. if ot_id r = ot_id row then r\<lparr>ot_processed := 1\<rparr> else r)
              (output_txs_accumulate tx)\<rparr>"

section \<open>The output pass\<close>

text \<open>
  The loops of \<^verbatim>\<open>processOutputs\<close>, innermost first. Each returns the remaining driver
  outcomes and either the error that ends the pass or the working copy of the tables.
\<close>

text \<open>Lines 183-194: compute the key of every balance and insert its aggregate row.\<close>

fun seedBalances ::
  "hash \<Rightarrow> AccumulateBalances list \<Rightarrow> faults \<Rightarrow> database \<Rightarrow>
   faults \<times> (error + database \<times> AccumulateBalances list)" where
  "seedBalances H [] fs tx = (fs, Inr (tx, []))"
| "seedBalances H (b # bs) fs tx =
     (case ComputeID H b of
        Inl e \<Rightarrow> (fs, Inl e)
      | Inr b' \<Rightarrow>
          (case InsertAccumulateBalances b' fs tx of
             (fs', Inl e) \<Rightarrow> (fs', Inl e)
           | (fs', Inr tx') \<Rightarrow>
               (case seedBalances H bs fs' tx' of
                  (fs'', Inl e) \<Rightarrow> (fs'', Inl e)
                | (fs'', Inr (tx'', bs')) \<Rightarrow> (fs'', Inr (tx'', b' # bs')))))"

text \<open>Lines 206-231: apply the delta of every balance.\<close>

fun updateBalances ::
  "processType \<Rightarrow> AccumulateBalances list \<Rightarrow> faults \<Rightarrow> database \<Rightarrow> faults \<times> (error + database)" where
  "updateBalances typ [] fs tx = (fs, Inr tx)"
| "updateBalances typ (b # bs) fs tx =
     (case exec (updateBalance typ b) fs tx of
        (fs', Inl e) \<Rightarrow> (fs', Inl e)
      | (fs', Inr tx') \<Rightarrow> updateBalances typ bs fs' tx')"

text \<open>
  Lines 159-248: the loop over the claimed rows. A row whose aggregation is empty is skipped
  (the info line that is logged for it is not part of the state).
\<close>

fun outputRows ::
  "hash \<Rightarrow> processType \<Rightarrow> OutputAddressAccumulate list \<Rightarrow> faults \<Rightarrow> database \<Rightarrow>
   faults \<times> (error + database)" where
  "outputRows H typ [] fs tx = (fs, Inr tx)"
| "outputRows H typ (row # rows) fs tx =
     (case driver fs of
        (Some e, fs1) \<Rightarrow> (fs1, Inl e)
      | (None, fs1) \<Rightarrow>
          (let balances = selectBalances tx (rowID row) (rowAddress row) in
           if length balances = 0 then outputRows H typ rows fs1 tx
           else
             (case seedBalances H balances fs1 tx of
                (fs2, Inl e) \<Rightarrow> (fs2, Inl e)
              | (fs2, Inr (tx2, balances')) \<Rightarrow>
                  (case driver fs2 of
                     (Some e, fs3) \<Rightarrow> (fs3, Inl e)
                   | (None, fs3) \<Rightarrow>
                       (case updateBalances typ balances' fs3 tx2 of
                          (fs4, Inl e) \<Rightarrow> (fs4, Inl e)
                        | (fs4, Inr tx4) \<Rightarrow>
                            (case exec (markOutput typ row) fs4 tx4 of
                               (fs5, Inl e) \<Rightarrow> (fs5, Inl e)
                             | (fs5, Inr tx5) \<Rightarrow> outputRows H typ rows fs5 tx5))))))"

text \<open>
  \<^verbatim>\<open>processOutputs\<close>. A failed \<^verbatim>\<open>Begin\<close> returns before there is a transaction. After it,
  every return passes through the deferred \<^verbatim>\<open>RollbackUnlessCommitted\<close>: only a successful
  \<^verbatim>\<open>Commit\<close> publishes the working copy.
\<close>

definition rolledBack :: "session \<Rightarrow> faults \<Rightarrow> session" where
  "rolledBack s fs = s\<lparr>pending := fs, rollbacks := rollbacks s + 1\<rparr>"

definition committed :: "session \<Rightarrow> faults \<Rightarrow> database \<Rightarrow> session" where
  "committed s fs tx = s\<lparr>tables := tx, pending := fs, commits := commits s + 1\<rparr>"

definition processOutputs :: "hash \<Rightarrow> processType \<Rightarrow> session \<Rightarrow> session \<times> (error + nat)" where
  "processOutputs H typ s =
     (case driver (pending s) of
        (Some e, fs0) \<Rightarrow> (s\<lparr>pending := fs0\<rparr>, Inl e)
      | (None, fs0) \<Rightarrow>
          (case driver fs0 of
             (Some e, fs1) \<Rightarrow> (rolledBack s fs1, Inl e)
           | (None, fs1) \<Rightarrow>
               (let rowdata = claimOutputs typ (tables s) in
                if length rowdata = 0 then (rolledBack s fs1, Inr 0)
                else
                  (case outputRows H typ rowdata fs1 (tables s) of
                     (fs2, Inl e) \<Rightarrow> (rolledBack s fs2, Inl e)
                   | (fs2, Inr tx) \<Rightarrow>
                       (case driver fs2 of
                          (Some e, fs3) \<Rightarrow> (rolledBack s fs3, Inl e)
                        | (None, fs3) \<Rightarrow> (committed s fs3 tx, Inr (length rowdata)))))))"

section \<open>The transaction pass\<close>

text \<open>Lines 287-303: one provisional balance per claimed row, its key, its aggregate row.\<close>

fun seedTransactions ::
  "hash \<Rightarrow> output_txs_accumulate_row list \<Rightarrow> faults \<Rightarrow> database \<Rightarrow>
   faults \<times> (error + database \<times> AccumulateBalances list)" where
  "seedTransactions H [] fs tx = (fs, Inr (tx, []))"
| "seedTransactions H (row # rows) fs tx =
     (case ComputeID H \<lparr>ID = [], ChainID = ot_chain_id row, AssetID = ot_asset_id row,
                        Address = ot_address row, TransactionCount = 0, TotalReceived = 0,
                        TotalSent = 0, UtxoCount = 0\<rparr> of
        Inl e \<Rightarrow> (fs, Inl e)
      | Inr b \<Rightarrow>
          (case InsertAccumulateBalances b fs tx of
             (fs', Inl e) \<Rightarrow> (fs', Inl e)
           | (fs', Inr tx') \<Rightarrow>
               (case seedTransactions H rows fs' tx' of
                  (fs'', Inl e) \<Rightarrow> (fs'', Inl e)
                | (fs'', Inr (tx'', bs)) \<Rightarrow> (fs'', Inr (tx'', b # bs)))))"

text \<open>Lines 315-325: one increment per balance of the list.\<close>

fun countTransactions ::
  "AccumulateBalances list \<Rightarrow> faults \<Rightarrow> database \<Rightarrow> faults \<times> (error + database)" where
  "countTransactions [] fs tx = (fs, Inr tx)"
| "countTransactions (b # bs) fs tx =
     (case exec (updateTransactionCount b) fs tx of
        (fs', Inl e) \<Rightarrow> (fs', Inl e)
      | (fs', Inr tx') \<Rightarrow> countTransactions bs fs' tx')"

text \<open>Lines 327-336: flag every claimed row.\<close>

fun markTransactions ::
  "output_txs_accumulate_row list \<Rightarrow> faults \<Rightarrow> database \<Rightarrow> faults \<times> (error + database)" where
  "markTransactions [] fs tx = (fs, Inr tx)"
| "markTransactions (row # rows) fs tx =
     (case exec (markTransaction row) fs tx of
        (fs', Inl e) \<Rightarrow> (fs', Inl e)
      | (fs', Inr tx') \<Rightarrow> markTransactions rows fs' tx')"

definition processTransactions :: "hash \<Rightarrow> session \<Rightarrow> session \<times> (error + nat)" where
  "processTransactions H s =
     (case driver (pending s) of
        (Some e, fs0) \<Rightarrow> (s\<lparr>pending := fs0\<rparr>, Inl e)
      | (None, fs0) \<Rightarrow>
          (case driver fs0 of
             (Some e, fs1) \<Rightarrow> (rolledBack s fs1, Inl e)
           | (None, fs1) \<Rightarrow>
               (let rowdata = claimTransactions (tables s) in
                if length rowdata = 0 then (rolledBack s fs1, Inr 0)
                else
                  (case seedTransactions H rowdata fs1 (tables s) of
                     (fs2, Inl e) \<Rightarrow> (rolledBack s fs2, Inl e)
                   | (fs2, Inr (tx2, balances)) \<Rightarrow>
                       (case driver fs2 of
                          (Some e, fs3) \<Rightarrow> (rolledBack s fs3, Inl e)
                        | (None, fs3) \<Rightarrow>
                            (case countTransactions balances fs3 tx2 of
                               (fs4, Inl e) \<Rightarrow> (rolledBack s fs4, Inl e)
                             | (fs4, Inr tx4) \<Rightarrow>
                                 (case markTransactions rowdata fs4 tx4 of
                                    (fs5, Inl e) \<Rightarrow> (rolledBack s fs5, Inl e)
                                  | (fs5, Inr tx5) \<Rightarrow>
                                      (case driver fs5 of
                                         (Some e, fs6) \<Rightarrow> (rolledBack s fs6, Inl e)
                                       | (None, fs6) \<Rightarrow>
                                           (committed s fs6 tx5, Inr (length rowdata))))))))))"

section \<open>The accumulation loop\<close>

text \<open>
  One of the three inner \<^verbatim>\<open>for\<close> loops of \<^verbatim>\<open>Accumulate\<close>: it repeats a pass until the pass
  fails or returns fewer than \<^verbatim>\<open>RowLintValue\<close> rows, and resets \<^verbatim>\<open>icnt\<close> whenever a batch
  is not empty. The loop need not end; \<open>None\<close> is the run that never returns.
\<close>

partial_function (option) passLoop ::
  "(session \<Rightarrow> session \<times> (error + nat)) \<Rightarrow> nat \<Rightarrow> session \<Rightarrow> (session \<times> (error + nat)) option" where
  "passLoop pass icnt s =
     (case pass s of
        (s', Inl e) \<Rightarrow> Some (s', Inl e)
      | (s', Inr cnt) \<Rightarrow>
          (let icnt' = (if cnt > 0 then 0 else icnt) in
           if cnt < RowLintValue then Some (s', Inr icnt')
           else passLoop pass icnt' s'))"

text \<open>The outer loop \<^verbatim>\<open>for ; icnt < 10; icnt++\<close>, entered with a given \<^verbatim>\<open>icnt\<close>.\<close>

partial_function (option) sweeps :: "hash \<Rightarrow> nat \<Rightarrow> session \<Rightarrow> (session \<times> error option) option" where
  "sweeps H icnt s =
     (if icnt < 10 then
        (case passLoop (processOutputs H processTypeOut) icnt s of
           None \<Rightarrow> None
         | Some (s1, Inl e) \<Rightarrow> Some (s1, Some e)
         | Some (s1, Inr icnt1) \<Rightarrow>
             (case passLoop (processOutputs H processTypeIn) icnt1 s1 of
                None \<Rightarrow> None
              | Some (s2, Inl e) \<Rightarrow> Some (s2, Some e)
              | Some (s2, Inr icnt2) \<Rightarrow>
                  (case passLoop (processTransactions H) icnt2 s2 of
                     None \<Rightarrow> None
                   | Some (s3, Inl e) \<Rightarrow> Some (s3, Some e)
                   | Some (s3, Inr icnt3) \<Rightarrow> sweeps H (icnt3 + 1) s3)))
      else Some (s, None))"

definition Accumulate :: "hash \<Rightarrow> session \<Rightarrow> (session \<times> error option) option" where
  "Accumulate H s = sweeps H 0 s"

declare passLoop.simps [code]
declare sweeps.simps [code]

section \<open>The runner\<close>

text \<open>
  The body of the goroutine that \<^verbatim>\<open>Run\<close> starts: the retry loop (lines 50-56), which counts
  the 1 ms sleeps, and the warning logged after it (lines 57-59). \<open>None\<close> is the task that
  never leaves the loop.
\<close>

partial_function (option) retryLoop ::
  "hash \<Rightarrow> nat \<Rightarrow> session \<Rightarrow> (session \<times> error option \<times> nat) option" where
  "retryLoop H slept s =
     (case Accumulate H s of
        None \<Rightarrow> None
      | Some (s', None) \<Rightarrow> Some (s', None, slept)
      | Some (s', Some e) \<Rightarrow>
          (if \<not> Contains e DeadlockDBErrorMessage then Some (s', Some e, slept)
           else retryLoop H (slept + 1) s'))"

declare retryLoop.simps [code]

record taskResult =
  finalSession :: session
  sleptMs :: nat
  warnings :: "string list"

definition task :: "hash \<Rightarrow> session \<Rightarrow> taskResult option" where
  "task H s =
     (case retryLoop H 0 s of
        None \<Rightarrow> None
      | Some (s', err, slept) \<Rightarrow>
          Some \<lparr>finalSession = s', sleptMs = slept,
                warnings = (case err of None \<Rightarrow> [] | Some e \<Rightarrow> [''Accumulate '' @ e])\<rparr>)"

text \<open>
  Admission (lines 33-48 and 60) as a transition system over the atomic steps of the
  callers of \<^verbatim>\<open>Run\<close> and of the background tasks; the steps of different goroutines
  interleave. A caller is at one of these points:
  \<^item> \<open>Idle\<close>: not inside \<^verbatim>\<open>Run\<close>;
  \<^item> \<open>Entry\<close>: before the first \<^verbatim>\<open>atomic.LoadInt64\<close>;
  \<^item> \<open>WantLock\<close>: before \<^verbatim>\<open>a.lock.Lock()\<close>;
  \<^item> \<open>Locked\<close>: holding the mutex, before the second load;
  \<^item> \<open>Checked\<close>: before \<^verbatim>\<open>atomic.AddInt64(&a.running, 1)\<close>;
  \<^item> \<open>Incremented\<close>: before the \<^verbatim>\<open>go\<close> statement;
  \<^item> \<open>Spawned\<close>, \<open>Rejected\<close>: returning, the deferred \<^verbatim>\<open>Unlock\<close> still to run.

  The mutex is recorded with the caller that holds it.
  \<open>inflight\<close> counts the goroutines that were started and have not yet run their deferred
  decrement. A goroutine ends by returning from the retry loop or by a panic in it; the
  deferred function runs in both cases.
\<close>

datatype pc = Idle | Entry | WantLock | Locked | Checked | Incremented | Spawned | Rejected

record handler =
  running :: int
  locked :: "nat option"
  callers :: "nat \<Rightarrow> pc"
  inflight :: nat

definition handler0 :: handler where
  "handler0 = \<lparr>running = 0, locked = None, callers = (\<lambda>_. Idle), inflight = 0\<rparr>"

inductive step :: "handler \<Rightarrow> handler \<Rightarrow> bool" where
  call: "callers h i = Idle \<Longrightarrow> step h (h\<lparr>callers := (callers h)(i := Entry)\<rparr>)"
| fast_busy: "callers h i = Entry \<Longrightarrow> running h \<noteq> 0 \<Longrightarrow>
     step h (h\<lparr>callers := (callers h)(i := Idle)\<rparr>)"
| fast_free: "callers h i = Entry \<Longrightarrow> running h = 0 \<Longrightarrow>
     step h (h\<lparr>callers := (callers h)(i := WantLock)\<rparr>)"
| lock: "callers h i = WantLock \<Longrightarrow> locked h = None \<Longrightarrow>
     step h (h\<lparr>locked := Some i, callers := (callers h)(i := Locked)\<rparr>)"
| slow_busy: "callers h i = Locked \<Longrightarrow> running h \<noteq> 0 \<Longrightarrow>
     step h (h\<lparr>callers := (callers h)(i := Rejected)\<rparr>)"
| slow_free: "callers h i = Locked \<Longrightarrow> running h = 0 \<Longrightarrow>
     step h (h\<lparr>callers := (callers h)(i := Checked)\<rparr>)"
| increment: "callers h i = Checked \<Longrightarrow>
     step h (h\<lparr>running := running h + 1, callers := (callers h)(i := Incremented)\<rparr>)"
| spawn: "callers h i = Incremented \<Longrightarrow>
     step h (h\<lparr>callers := (callers h)(i := Spawned), inflight := inflight h + 1\<rparr>)"
| unlock: "callers h i = Spawned \<or> callers h i = Rejected \<Longrightarrow>
     step h (h\<lparr>locked := None, callers := (callers h)(i := Idle)\<rparr>)"
| task_return: "0 < inflight h \<Longrightarrow>
     step h (h\<lparr>running := running h - 1, inflight := inflight h - 1\<rparr>)"
| task_panic: "0 < inflight h \<Longrightarrow>
     step h (h\<lparr>running := running h - 1, inflight := inflight h - 1\<rparr>)"

inductive reachable :: "handler \<Rightarrow> bool" where
  reach_init: "reachable handler0"
| reach_step: "reachable h \<Longrightarrow> step h h' \<Longrightarrow> reachable h'"

section \<open>Notions used in the statements\<close>

text \<open>No pass has a staging row to claim.\<close>

definition drained :: "database \<Rightarrow> bool" where
  "drained db \<longleftrightarrow>
     claimOutputs processTypeOut db = [] \<and> claimOutputs processTypeIn db = [] \<and>
     claimTransactions db = []"

text \<open>The points of \<^verbatim>\<open>Run\<close> at which the caller holds the mutex.\<close>

definition holdsLock :: "pc \<Rightarrow> bool" where
  "holdsLock p \<longleftrightarrow> p = Locked \<or> p = Checked \<or> p = Incremented \<or> p = Spawned \<or> p = Rejected"

text \<open>
  What admission maintains: the caller recorded with the mutex is the one caller at a
  point where the mutex is held; the counter is the number of tasks in flight, plus one while a caller is between
  its increment and its \<^verbatim>\<open>go\<close> statement; at most one task is in flight; a caller that has
  passed the second check has seen the counter at zero, and none has been started since.
\<close>

definition admission :: "handler \<Rightarrow> bool" where
  "admission h \<longleftrightarrow>
     (\<forall>j. holdsLock (callers h j) \<longleftrightarrow> locked h = Some j) \<and>
     inflight h \<le> 1 \<and>
     running h = int (inflight h) +
       (case locked h of None \<Rightarrow> 0 | Some i \<Rightarrow> if callers h i = Incremented then 1 else 0) \<and>
     (case locked h of
        None \<Rightarrow> True
      | Some i \<Rightarrow> (callers h i = Checked \<longrightarrow> running h = 0) \<and>
                  (callers h i = Incremented \<longrightarrow> inflight h = 0))"

text \<open>
  The primary keys of the tables: \<open>(id, address)\<close> for \<^verbatim>\<open>output_addresses_accumulate\<close>,
  \<open>id\<close> for \<^verbatim>\<open>output_txs_accumulate\<close>, \<^verbatim>\<open>avm_outputs\<close> and \<^verbatim>\<open>avm_outputs_redeeming\<close>,
  \<open>(output_id, address)\<close> for \<^verbatim>\<open>avm_output_addresses\<close>.
\<close>

definition primaryKeys :: "database \<Rightarrow> bool" where
  "primaryKeys db \<longleftrightarrow>
     distinct (map (\<lambda>x. (oa_id x, oa_address x)) (output_addresses_accumulate db)) \<and>
     distinct (map ot_id (output_txs_accumulate db)) \<and>
     distinct (map out_id (avm_outputs db)) \<and>
     distinct (map (\<lambda>x. (adr_output_id x, adr_address x)) (avm_output_addresses db)) \<and>
     distinct (avm_outputs_redeeming db)"

text \<open>
  Invariant I4 of the specification. \<open>staged f H db flag k\<close> adds \<open>f\<close> over the outputs of
  the staging rows whose \<open>flag\<close> is 1 and whose balance key is \<open>k\<close>; with \<open>f\<close> the amount it
  is a total, with \<open>f\<close> constantly 1 a count. \<open>counted H db k\<close> counts the rows of
  \<^verbatim>\<open>output_txs_accumulate\<close> with \<open>processed = 1\<close> and key \<open>k\<close>.
\<close>

definition staged ::
  "(avm_outputs_row \<Rightarrow> int) \<Rightarrow> hash \<Rightarrow> database \<Rightarrow> (output_addresses_accumulate_row \<Rightarrow> nat) \<Rightarrow>
   string \<Rightarrow> int" where
  "staged f H db flag k =
     (\<Sum>x\<leftarrow>output_addresses_accumulate db.
        if flag x = 1 then
          (\<Sum>u\<leftarrow>avm_outputs db.
             if out_id u = oa_id x \<and> H (out_chain_id u) (out_asset_id u) (oa_address x) = Inr k
             then f u else 0)
        else 0)"

definition counted :: "hash \<Rightarrow> database \<Rightarrow> string \<Rightarrow> int" where
  "counted H db k =
     int (length (filter (\<lambda>r. ot_processed r = 1 \<and>
                                H (ot_chain_id r) (ot_asset_id r) (ot_address r) = Inr k)
                    (output_txs_accumulate db)))"

definition conservation :: "hash \<Rightarrow> database \<Rightarrow> bool" where
  "conservation H db \<longleftrightarrow>
     (\<forall>b\<in>set (accumulate_balances db).
        TotalReceived b = staged out_amount H db oa_processed_out (ID b) \<and>
        TotalSent b = staged out_amount H db oa_processed_in (ID b) \<and>
        UtxoCount b = staged (\<lambda>u. 1) H db oa_processed_out (ID b) -
                      staged (\<lambda>u. 1) H db oa_processed_in (ID b) \<and>
        TransactionCount b = counted H db (ID b)) \<and>
     (\<forall>k. k \<notin> ID ` set (accumulate_balances db) \<longrightarrow>
        staged out_amount H db oa_processed_out k = 0 \<and>
        staged out_amount H db oa_processed_in k = 0 \<and>
        staged (\<lambda>u. 1) H db oa_processed_out k - staged (\<lambda>u. 1) H db oa_processed_in k = 0 \<and>
        counted H db k = 0)"

text \<open>
  The value of a counter for a balance key: that of the aggregate row of the key, and 0
  when the key has no row.
\<close>

definition counterOf :: "(AccumulateBalances \<Rightarrow> int) \<Rightarrow> database \<Rightarrow> string \<Rightarrow> int" where
  "counterOf f db k =
     (case find (\<lambda>r. ID r = k) (accumulate_balances db) of None \<Rightarrow> 0 | Some r \<Rightarrow> f r)"

text \<open>
  Invariant I5 of the specification, between the tables \<open>a\<close> before and \<open>b\<close> after a pass:
  for every balance key, each counter has changed by exactly what the flags that were set
  in between contribute to it.
\<close>

definition inStep :: "hash \<Rightarrow> database \<Rightarrow> database \<Rightarrow> bool" where
  "inStep H a b \<longleftrightarrow>
     (\<forall>k. counterOf TotalReceived b k - counterOf TotalReceived a k =
            staged out_amount H b oa_processed_out k - staged out_amount H a oa_processed_out k \<and>
          counterOf TotalSent b k - counterOf TotalSent a k =
            staged out_amount H b oa_processed_in k - staged out_amount H a oa_processed_in k \<and>
          counterOf UtxoCount b k - counterOf UtxoCount a k =
            (staged (\<lambda>u. 1) H b oa_processed_out k - staged (\<lambda>u. 1) H a oa_processed_out k) -
            (staged (\<lambda>u. 1) H b oa_processed_in k - staged (\<lambda>u. 1) H a oa_processed_in k) \<and>
          counterOf TransactionCount b k - counterOf TransactionCount a k =
            counted H b k - counted H a k)"

text \<open>The flag of a staging row that a direction claims on and sets.\<close>

definition flagOf :: "processType \<Rightarrow> output_addresses_accumulate_row \<Rightarrow> nat" where
  "flagOf typ x = (case typ of processTypeOut \<Rightarrow> oa_processed_out x | processTypeIn \<Rightarrow> oa_processed_in x)"

section \<open>Concrete inputs\<close>

text \<open>
  A key function for the concrete scenarios: it joins the three components, and fails on an
  empty address.
\<close>

definition sampleHash :: hash where
  "sampleHash c a d =
     (if d = [] then Inl ''bad address'' else Inr (c @ '':'' @ a @ '':'' @ d))"

definition noTables :: database where
  "noTables =
     \<lparr>output_addresses_accumulate = [], output_txs_accumulate = [], avm_outputs = [],
      avm_output_addresses = [], avm_outputs_redeeming = [], accumulate_balances = []\<rparr>"

definition freshSession :: "database \<Rightarrow> faults \<Rightarrow> session" where
  "freshSession db fs = \<lparr>tables = db, pending = fs, commits = 0, rollbacks = 0\<rparr>"

text \<open>
  Scenarios 1 and 5 of the specification together: one output \<open>X\<close> of 10 owned by \<open>A\<close>,
  and three transactions of the same chain, asset and address.
\<close>

definition scenarioOne :: database where
  "scenarioOne =
     \<lparr>output_addresses_accumulate =
        [\<lparr>oa_id = ''X'', oa_address = ''A'', oa_processed_out = 0, oa_processed_in = 0\<rparr>],
      output_txs_accumulate =
        [\<lparr>ot_id = ''1'', ot_chain_id = ''C'', ot_asset_id = ''S'', ot_address = ''A'',
          ot_transaction_id = ''T1'', ot_processed = 0\<rparr>,
         \<lparr>ot_id = ''2'', ot_chain_id = ''C'', ot_asset_id = ''S'', ot_address = ''A'',
          ot_transaction_id = ''T2'', ot_processed = 0\<rparr>,
         \<lparr>ot_id = ''3'', ot_chain_id = ''C'', ot_asset_id = ''S'', ot_address = ''A'',
          ot_transaction_id = ''T3'', ot_processed = 0\<rparr>],
      avm_outputs =
        [\<lparr>out_id = ''X'', out_chain_id = ''C'', out_asset_id = ''S'',
          out_transaction_id = ''T1'', out_amount = 10\<rparr>],
      avm_output_addresses = [\<lparr>adr_output_id = ''X'', adr_address = ''A''\<rparr>],
      avm_outputs_redeeming = [],
      accumulate_balances = []\<rparr>"

text \<open>
  A second output \<open>Y\<close> and a second transaction whose address is empty, so that their key
  cannot be computed.
\<close>

definition scenarioBadKey :: database where
  "scenarioBadKey =
     \<lparr>output_addresses_accumulate =
        [\<lparr>oa_id = ''X'', oa_address = ''A'', oa_processed_out = 0, oa_processed_in = 0\<rparr>,
         \<lparr>oa_id = ''Y'', oa_address = [], oa_processed_out = 0, oa_processed_in = 0\<rparr>],
      output_txs_accumulate =
        [\<lparr>ot_id = ''1'', ot_chain_id = ''C'', ot_asset_id = ''S'', ot_address = ''A'',
          ot_transaction_id = ''T1'', ot_processed = 0\<rparr>,
         \<lparr>ot_id = ''2'', ot_chain_id = ''C'', ot_asset_id = ''S'', ot_address = [],
          ot_transaction_id = ''T2'', ot_processed = 0\<rparr>],
      avm_outputs =
        [\<lparr>out_id = ''X'', out_chain_id = ''C'', out_asset_id = ''S'',
          out_transaction_id = ''T1'', out_amount = 10\<rparr>,
         \<lparr>out_id = ''Y'', out_chain_id = ''C'', out_asset_id = ''S'',
          out_transaction_id = ''T2'', out_amount = 7\<rparr>],
      avm_output_addresses =
        [\<lparr>adr_output_id = ''X'', adr_address = ''A''\<rparr>,
         \<lparr>adr_output_id = ''Y'', adr_address = []\<rparr>],
      avm_outputs_redeeming = [],
      accumulate_balances = []\<rparr>"

text \<open>
  Scenario 2 of the specification: the tables after a first run over \<open>scenarioOne\<close>, and the
  redemption of \<open>X\<close> ingested since.
\<close>

definition scenarioTwo :: database where
  "scenarioTwo =
     \<lparr>output_addresses_accumulate =
        [\<lparr>oa_id = ''X'', oa_address = ''A'', oa_processed_out = 1, oa_processed_in = 0\<rparr>],
      output_txs_accumulate =
        [\<lparr>ot_id = ''1'', ot_chain_id = ''C'', ot_asset_id = ''S'', ot_address = ''A'',
          ot_transaction_id = ''T1'', ot_processed = 1\<rparr>,
         \<lparr>ot_id = ''2'', ot_chain_id = ''C'', ot_asset_id = ''S'', ot_address = ''A'',
          ot_transaction_id = ''T2'', ot_processed = 1\<rparr>,
         \<lparr>ot_id = ''3'', ot_chain_id = ''C'', ot_asset_id = ''S'', ot_address = ''A'',
          ot_transaction_id = ''T3'', ot_processed = 1\<rparr>],
      avm_outputs =
        [\<lparr>out_id = ''X'', out_chain_id = ''C'', out_asset_id = ''S'',
          out_transaction_id = ''T1'', out_amount = 10\<rparr>],
      avm_output_addresses = [\<lparr>adr_output_id = ''X'', adr_address = ''A''\<rparr>],
      avm_outputs_redeeming = [''X''],
      accumulate_balances =
        [\<lparr>ID = ''C:S:A'', ChainID = ''C'', AssetID = ''S'', Address = ''A'',
          TransactionCount = 3, TotalReceived = 10, TotalSent = 0, UtxoCount = 1\<rparr>]\<rparr>"

text \<open>The driver outcomes of an attempt on \<open>scenarioOne\<close> whose first commit meets a deadlock.\<close>

definition deadlockAtCommit :: faults where
  "deadlockAtCommit =
     [None, None, None, None, None, None, None,
      Some ''Error 1213: Deadlock found when trying to get lock; try restarting transaction'']"


text \<open>
  Scenario 3 of the specification: the output of \<open>scenarioOne\<close> is folded into the
  totals received, and no redemption of \<open>X\<close> has been ingested.
\<close>

definition scenarioThree :: database where
  "scenarioThree = scenarioTwo\<lparr>avm_outputs_redeeming := []\<rparr>"

section \<open>Facts about the passes\<close>

subsection \<open>A pass that succeeds has the effect of the pass without driver failures\<close>

lemma exec_Inr: "exec f fs tx = (fs', Inr tx') \<Longrightarrow> tx' = f tx"
  by (auto simp: exec_def split: prod.splits option.splits)

lemma exec_nil [simp]: "exec f [] tx = ([], Inr (f tx))"
  by (simp add: exec_def)

lemma updateBalances_nofault:
  "updateBalances typ bs fs tx = (fs', Inr tx') \<Longrightarrow> updateBalances typ bs [] tx = ([], Inr tx')"
  by (induction bs arbitrary: fs tx) (auto split: prod.splits sum.splits dest!: exec_Inr)

lemma seedBalances_nofault:
  "seedBalances H bs fs tx = (fs', Inr r) \<Longrightarrow> seedBalances H bs [] tx = ([], Inr r)"
  by (induction bs arbitrary: fs tx r)
     (auto simp: InsertAccumulateBalances_def split: prod.splits sum.splits dest!: exec_Inr)

lemma outputRows_nofault:
  "outputRows H typ rows fs tx = (fs', Inr tx') \<Longrightarrow> outputRows H typ rows [] tx = ([], Inr tx')"
proof (induction rows arbitrary: fs tx)
  case Nil
  then show ?case by simp
next
  case (Cons row rows)
  show ?case
  proof (cases "selectBalances tx (rowID row) (rowAddress row) = []")
    case True
    with Cons.prems Cons.IH show ?thesis
      by (auto split: prod.splits option.splits)
  next
    case False
    with Cons.prems obtain fs1 fs2 tx2 bs fs3 fs4 tx4 fs5 where
      s: "seedBalances H (selectBalances tx (rowID row) (rowAddress row)) fs1 tx = (fs2, Inr (tx2, bs))"
      and u: "updateBalances typ bs fs3 tx2 = (fs4, Inr tx4)"
      and r: "outputRows H typ rows fs5 (markOutput typ row tx4) = (fs', Inr tx')"
      by (auto split: prod.splits option.splits sum.splits dest!: exec_Inr)
    from seedBalances_nofault [OF s] updateBalances_nofault [OF u] Cons.IH [OF r] False
    show ?thesis by simp
  qed
qed

lemma seedTransactions_nofault:
  "seedTransactions H rows fs tx = (fs', Inr r) \<Longrightarrow> seedTransactions H rows [] tx = ([], Inr r)"
  by (induction rows arbitrary: fs tx r)
     (auto simp: InsertAccumulateBalances_def split: prod.splits sum.splits dest!: exec_Inr)

lemma countTransactions_nofault:
  "countTransactions bs fs tx = (fs', Inr tx') \<Longrightarrow> countTransactions bs [] tx = ([], Inr tx')"
  by (induction bs arbitrary: fs tx) (auto split: prod.splits sum.splits dest!: exec_Inr)

lemma markTransactions_nofault:
  "markTransactions rows fs tx = (fs', Inr tx') \<Longrightarrow> markTransactions rows [] tx = ([], Inr tx')"
  by (induction rows arbitrary: fs tx) (auto split: prod.splits sum.splits dest!: exec_Inr)

subsection \<open>The three outcomes of a pass\<close>

lemma processOutputs_error:
  "processOutputs H typ s = (s', Inl e) \<Longrightarrow>
     tables s' = tables s \<and> commits s' = commits s"
  by (auto simp: processOutputs_def rolledBack_def committed_def Let_def
      split: prod.splits option.splits sum.splits if_splits)

lemma processTransactions_error:
  "processTransactions H s = (s', Inl e) \<Longrightarrow>
     tables s' = tables s \<and> commits s' = commits s"
  by (auto simp: processTransactions_def rolledBack_def committed_def Let_def
      split: prod.splits option.splits sum.splits if_splits)

lemma processOutputs_count:
  "processOutputs H typ s = (s', Inr n) \<Longrightarrow> n = length (claimOutputs typ (tables s))"
  by (auto simp: processOutputs_def rolledBack_def committed_def Let_def
      split: prod.splits option.splits sum.splits if_splits)

lemma processOutputs_empty:
  "processOutputs H typ s = (s', Inr 0) \<Longrightarrow>
     tables s' = tables s \<and> commits s' = commits s \<and> rollbacks s' = rollbacks s + 1"
  by (auto simp: processOutputs_def rolledBack_def committed_def Let_def
      split: prod.splits option.splits sum.splits if_splits)

lemma processOutputs_commit:
  assumes "processOutputs H typ s = (s', Inr n)" and "0 < n"
  shows "outputRows H typ (claimOutputs typ (tables s)) [] (tables s) = ([], Inr (tables s'))
         \<and> commits s' = commits s + 1 \<and> rollbacks s' = rollbacks s"
proof -
  from assms obtain fs fs' fs'' tx where
    "outputRows H typ (claimOutputs typ (tables s)) fs (tables s) = (fs', Inr tx)"
    "s' = committed s fs'' tx"
    by (auto simp: processOutputs_def rolledBack_def Let_def
      split: prod.splits option.splits sum.splits if_splits)
  then show ?thesis
    by (auto simp: committed_def dest: outputRows_nofault)
qed

lemma processTransactions_count:
  "processTransactions H s = (s', Inr n) \<Longrightarrow> n = length (claimTransactions (tables s))"
  by (auto simp: processTransactions_def rolledBack_def committed_def Let_def
      split: prod.splits option.splits sum.splits if_splits)

lemma processTransactions_empty:
  "processTransactions H s = (s', Inr 0) \<Longrightarrow>
     tables s' = tables s \<and> commits s' = commits s \<and> rollbacks s' = rollbacks s + 1"
  by (auto simp: processTransactions_def rolledBack_def committed_def Let_def
      split: prod.splits option.splits sum.splits if_splits)

lemma processTransactions_commit:
  assumes "processTransactions H s = (s', Inr n)" and "0 < n"
  shows "\<exists>tx2 bs tx4.
           seedTransactions H (claimTransactions (tables s)) [] (tables s) = ([], Inr (tx2, bs))
         \<and> countTransactions bs [] tx2 = ([], Inr tx4)
         \<and> markTransactions (claimTransactions (tables s)) [] tx4 = ([], Inr (tables s'))
         \<and> commits s' = commits s + 1 \<and> rollbacks s' = rollbacks s"
proof -
  from assms obtain fs1 fs2 tx2 bs fs3 fs4 tx4 fs5 fs6 tx5 where
    "seedTransactions H (claimTransactions (tables s)) fs1 (tables s) = (fs2, Inr (tx2, bs))"
    "countTransactions bs fs3 tx2 = (fs4, Inr tx4)"
    "markTransactions (claimTransactions (tables s)) fs4 tx4 = (fs5, Inr tx5)"
    "s' = committed s fs6 tx5"
    by (auto simp: processTransactions_def rolledBack_def Let_def
      split: prod.splits option.splits sum.splits if_splits)
  then show ?thesis
    by (auto simp: committed_def
        dest: seedTransactions_nofault countTransactions_nofault markTransactions_nofault)
qed

subsection \<open>A pass whose claim is empty\<close>

lemma processOutputs_idle:
  assumes "\<forall>f\<in>set (take 2 (pending s)). f = None" and "claimOutputs typ (tables s) = []"
  shows "processOutputs H typ s = (s\<lparr>pending := drop 2 (pending s), rollbacks := rollbacks s + 1\<rparr>, Inr 0)"
proof -
  consider "pending s = []" | f where "pending s = [f]" | f g fs where "pending s = f # g # fs"
    by (cases "pending s" rule: list.exhaust; cases "tl (pending s)") auto
  then show ?thesis
    using assms by cases (auto simp: processOutputs_def rolledBack_def)
qed

lemma processTransactions_idle:
  assumes "\<forall>f\<in>set (take 2 (pending s)). f = None" and "claimTransactions (tables s) = []"
  shows "processTransactions H s = (s\<lparr>pending := drop 2 (pending s), rollbacks := rollbacks s + 1\<rparr>, Inr 0)"
proof -
  consider "pending s = []" | f where "pending s = [f]" | f g fs where "pending s = f # g # fs"
    by (cases "pending s" rule: list.exhaust; cases "tl (pending s)") auto
  then show ?thesis
    using assms by cases (auto simp: processTransactions_def rolledBack_def)
qed

subsection \<open>What the statements leave alone\<close>

lemma seedRow_frame [simp]:
  "output_addresses_accumulate (seedRow b tx) = output_addresses_accumulate tx"
  "output_txs_accumulate (seedRow b tx) = output_txs_accumulate tx"
  "avm_outputs (seedRow b tx) = avm_outputs tx"
  "avm_output_addresses (seedRow b tx) = avm_output_addresses tx"
  "avm_outputs_redeeming (seedRow b tx) = avm_outputs_redeeming tx"
  by (simp_all add: seedRow_def)

lemma updateBalance_frame [simp]:
  "output_addresses_accumulate (updateBalance typ b tx) = output_addresses_accumulate tx"
  "output_txs_accumulate (updateBalance typ b tx) = output_txs_accumulate tx"
  "avm_outputs (updateBalance typ b tx) = avm_outputs tx"
  "avm_output_addresses (updateBalance typ b tx) = avm_output_addresses tx"
  "avm_outputs_redeeming (updateBalance typ b tx) = avm_outputs_redeeming tx"
  by (simp_all add: updateBalance_def)

lemma markOutput_frame [simp]:
  "output_txs_accumulate (markOutput typ row tx) = output_txs_accumulate tx"
  "avm_outputs (markOutput typ row tx) = avm_outputs tx"
  "avm_output_addresses (markOutput typ row tx) = avm_output_addresses tx"
  "avm_outputs_redeeming (markOutput typ row tx) = avm_outputs_redeeming tx"
  "accumulate_balances (markOutput typ row tx) = accumulate_balances tx"
  by (simp_all add: markOutput_def)

lemma updateTransactionCount_frame [simp]:
  "output_addresses_accumulate (updateTransactionCount b tx) = output_addresses_accumulate tx"
  "output_txs_accumulate (updateTransactionCount b tx) = output_txs_accumulate tx"
  "avm_outputs (updateTransactionCount b tx) = avm_outputs tx"
  "avm_output_addresses (updateTransactionCount b tx) = avm_output_addresses tx"
  "avm_outputs_redeeming (updateTransactionCount b tx) = avm_outputs_redeeming tx"
  by (simp_all add: updateTransactionCount_def)

lemma markTransaction_frame [simp]:
  "output_addresses_accumulate (markTransaction row tx) = output_addresses_accumulate tx"
  "avm_outputs (markTransaction row tx) = avm_outputs tx"
  "avm_output_addresses (markTransaction row tx) = avm_output_addresses tx"
  "avm_outputs_redeeming (markTransaction row tx) = avm_outputs_redeeming tx"
  "accumulate_balances (markTransaction row tx) = accumulate_balances tx"
  by (simp_all add: markTransaction_def)

lemma selectBalances_cong:
  "avm_outputs a = avm_outputs b \<Longrightarrow> avm_output_addresses a = avm_output_addresses b \<Longrightarrow>
     selectBalances a = selectBalances b"
  by (intro ext) (simp add: selectBalances_def)

text \<open>The loops without driver failures, as folds of their statements.\<close>

lemma seedBalances_frame:
  "seedBalances H bs [] tx = ([], Inr (tx', bs')) \<Longrightarrow>
     output_addresses_accumulate tx' = output_addresses_accumulate tx \<and>
     output_txs_accumulate tx' = output_txs_accumulate tx \<and>
     avm_outputs tx' = avm_outputs tx \<and>
     avm_output_addresses tx' = avm_output_addresses tx \<and>
     avm_outputs_redeeming tx' = avm_outputs_redeeming tx"
  by (induction bs arbitrary: tx bs')
     (auto simp: InsertAccumulateBalances_def split: prod.splits sum.splits)

lemma updateBalances_fold:
  "updateBalances typ bs [] tx = ([], Inr (fold (updateBalance typ) bs tx))"
  by (induction bs arbitrary: tx) auto

lemma fold_updateBalance_frame [simp]:
  "output_addresses_accumulate (fold (updateBalance typ) bs tx) = output_addresses_accumulate tx"
  "output_txs_accumulate (fold (updateBalance typ) bs tx) = output_txs_accumulate tx"
  "avm_outputs (fold (updateBalance typ) bs tx) = avm_outputs tx"
  "avm_output_addresses (fold (updateBalance typ) bs tx) = avm_output_addresses tx"
  "avm_outputs_redeeming (fold (updateBalance typ) bs tx) = avm_outputs_redeeming tx"
  by (induction bs arbitrary: tx) simp_all

text \<open>What one claimed row does to the working copy when nothing fails.\<close>

lemma outputRows_Cons:
  "outputRows H typ (row # rows) [] tx = ([], Inr tx') \<Longrightarrow>
     (selectBalances tx (rowID row) (rowAddress row) = [] \<and>
        outputRows H typ rows [] tx = ([], Inr tx')) \<or>
     (\<exists>tx2 bs. selectBalances tx (rowID row) (rowAddress row) \<noteq> [] \<and>
        seedBalances H (selectBalances tx (rowID row) (rowAddress row)) [] tx = ([], Inr (tx2, bs)) \<and>
        outputRows H typ rows [] (markOutput typ row (fold (updateBalance typ) bs tx2)) = ([], Inr tx'))"
proof (cases "selectBalances tx (rowID row) (rowAddress row) = []")
  case True
  moreover assume "outputRows H typ (row # rows) [] tx = ([], Inr tx')"
  ultimately show ?thesis by simp
next
  case False
  moreover assume a: "outputRows H typ (row # rows) [] tx = ([], Inr tx')"
  ultimately obtain fs2 tx2 bs where
    s: "seedBalances H (selectBalances tx (rowID row) (rowAddress row)) [] tx = (fs2, Inr (tx2, bs))"
    by (auto split: prod.splits sum.splits)
  from seedBalances_nofault [OF s] s have [simp]: "fs2 = []" by simp
  from a False s show ?thesis
    by (auto simp: updateBalances_fold split: prod.splits sum.splits)
qed

lemma outputRows_frame:
  "outputRows H typ rows [] tx = ([], Inr tx') \<Longrightarrow>
     output_txs_accumulate tx' = output_txs_accumulate tx \<and>
     avm_outputs tx' = avm_outputs tx \<and>
     avm_output_addresses tx' = avm_output_addresses tx \<and>
     avm_outputs_redeeming tx' = avm_outputs_redeeming tx"
proof (induction rows arbitrary: tx)
  case Nil
  then show ?case by simp
next
  case (Cons row rows)
  from outputRows_Cons [OF Cons.prems] show ?case
    by (auto dest!: Cons.IH seedBalances_frame)
qed

lemma seedBalances_keys:
  "seedBalances H bs fs tx = (fs', Inr r) \<Longrightarrow>
     \<forall>b\<in>set bs. \<exists>k. H (ChainID b) (AssetID b) (Address b) = Inr k"
  by (induction bs arbitrary: fs tx r)
     (auto simp: ComputeID_def split: prod.splits sum.splits)

lemma outputRows_keys:
  "outputRows H typ rows [] tx = ([], Inr tx') \<Longrightarrow>
     \<forall>row\<in>set rows. \<forall>b\<in>set (selectBalances tx (rowID row) (rowAddress row)).
        \<exists>k. H (ChainID b) (AssetID b) (Address b) = Inr k"
proof (induction rows arbitrary: tx)
  case Nil
  then show ?case by simp
next
  case (Cons row rows)
  from outputRows_Cons [OF Cons.prems] show ?case
  proof
    assume "selectBalances tx (rowID row) (rowAddress row) = [] \<and>
        outputRows H typ rows [] tx = ([], Inr tx')"
    then show ?thesis using Cons.IH by auto
  next
    assume "\<exists>tx2 bs. selectBalances tx (rowID row) (rowAddress row) \<noteq> [] \<and>
        seedBalances H (selectBalances tx (rowID row) (rowAddress row)) [] tx = ([], Inr (tx2, bs)) \<and>
        outputRows H typ rows [] (markOutput typ row (fold (updateBalance typ) bs tx2)) = ([], Inr tx')"
    then obtain tx2 bs where
      s: "seedBalances H (selectBalances tx (rowID row) (rowAddress row)) [] tx = ([], Inr (tx2, bs))"
      and r: "outputRows H typ rows [] (markOutput typ row (fold (updateBalance typ) bs tx2)) = ([], Inr tx')"
      by blast
    have "selectBalances (markOutput typ row (fold (updateBalance typ) bs tx2)) = selectBalances tx"
      using seedBalances_frame [OF s] by (intro selectBalances_cong) simp_all
    with Cons.IH [OF r] seedBalances_keys [OF s] show ?thesis by simp
  qed
qed

lemma seedTransactions_keys:
  "seedTransactions H rows fs tx = (fs', Inr r) \<Longrightarrow>
     \<forall>row\<in>set rows. \<exists>k. H (ot_chain_id row) (ot_asset_id row) (ot_address row) = Inr k"
  by (induction rows arbitrary: fs tx r)
     (auto simp: ComputeID_def split: prod.splits sum.splits)

section \<open>Empty batches\<close>

text \<open>
  C8, as the code has it. When \<^verbatim>\<open>Begin\<close> and the claim query succeed and the claim query
  selects no staging row, the output pass (either direction) and the transaction pass
  return 0 and no error without committing: the only thing that ends the transaction is
  the deferred \<^verbatim>\<open>RollbackUnlessCommitted\<close>. No table changes, the commit count stays, the
  rollback count goes up by one.
\<close>

theorem C8_empty_claim_rolls_back:
  assumes "\<forall>f\<in>set (take 2 (pending s)). f = None"
  shows "(claimOutputs typ (tables s) = [] \<longrightarrow>
            processOutputs H typ s =
              (s\<lparr>pending := drop 2 (pending s), rollbacks := rollbacks s + 1\<rparr>, Inr 0)) \<and>
         (claimTransactions (tables s) = [] \<longrightarrow>
            processTransactions H s =
              (s\<lparr>pending := drop 2 (pending s), rollbacks := rollbacks s + 1\<rparr>, Inr 0))"
  using assms processOutputs_idle processTransactions_idle by blast

theorem C8_empty_claim_rolls_back_witness:
  "set (take 2 (pending (freshSession noTables []))) \<subseteq> {None} \<and>
   claimOutputs processTypeIn (tables (freshSession noTables [])) = [] \<and>
   claimTransactions (tables (freshSession noTables [])) = [] \<and>
   processOutputs sampleHash processTypeIn (freshSession noTables []) =
     (\<lparr>tables = noTables, pending = [], commits = 0, rollbacks = 1\<rparr>, Inr 0) \<and>
   processTransactions sampleHash (freshSession noTables []) =
     (\<lparr>tables = noTables, pending = [], commits = 0, rollbacks = 1\<rparr>, Inr 0)"
  using C8_empty_claim_rolls_back [of "freshSession noTables []" processTypeIn sampleHash]
  by (simp add: freshSession_def noTables_def claimOutputs_def claimTransactions_def)

text \<open>
  C8 as stated fails: on empty tables each pass selects no row and returns 0, and the
  session has committed nothing; its one transaction was rolled back.
\<close>

theorem C8_commit_counterexample:
  "claimTransactions noTables = [] \<and>
   processTransactions sampleHash (freshSession noTables []) =
     (\<lparr>tables = noTables, pending = [], commits = 0, rollbacks = 1\<rparr>, Inr 0) \<and>
   claimOutputs processTypeOut noTables = [] \<and>
   processOutputs sampleHash processTypeOut (freshSession noTables []) =
     (\<lparr>tables = noTables, pending = [], commits = 0, rollbacks = 1\<rparr>, Inr 0)"
  by (simp add: freshSession_def noTables_def claimOutputs_def claimTransactions_def
      processOutputs_def processTransactions_def rolledBack_def)

section \<open>The passes as expressions over the tables\<close>

subsection \<open>The loops as folds\<close>

lemma seedBalances_fold:
  "seedBalances H bs [] tx = ([], Inr (tx', bs')) \<Longrightarrow>
     list_all2 (\<lambda>b b'. ComputeID H b = Inr b') bs bs' \<and> tx' = fold seedRow bs' tx"
  by (induction bs arbitrary: tx bs')
     (auto simp: InsertAccumulateBalances_def split: prod.splits sum.splits)

lemma seedTransactions_seedBalances:
  "seedTransactions H rows fs tx =
     seedBalances H
       (map (\<lambda>row. \<lparr>ID = [], ChainID = ot_chain_id row, AssetID = ot_asset_id row,
                     Address = ot_address row, TransactionCount = 0, TotalReceived = 0,
                     TotalSent = 0, UtxoCount = 0\<rparr>) rows) fs tx"
  by (induction rows arbitrary: fs tx) (auto split: prod.splits sum.splits)

lemma countTransactions_fold:
  "countTransactions bs [] tx = ([], Inr (fold updateTransactionCount bs tx))"
  by (induction bs arbitrary: tx) auto

lemma markTransactions_fold:
  "markTransactions rows [] tx = ([], Inr (fold markTransaction rows tx))"
  by (induction rows arbitrary: tx) auto

lemma fold_seedRow_frame [simp]:
  "output_addresses_accumulate (fold seedRow bs tx) = output_addresses_accumulate tx"
  "output_txs_accumulate (fold seedRow bs tx) = output_txs_accumulate tx"
  "avm_outputs (fold seedRow bs tx) = avm_outputs tx"
  "avm_output_addresses (fold seedRow bs tx) = avm_output_addresses tx"
  "avm_outputs_redeeming (fold seedRow bs tx) = avm_outputs_redeeming tx"
  by (induction bs arbitrary: tx) simp_all

lemma fold_updateTransactionCount_frame [simp]:
  "output_addresses_accumulate (fold updateTransactionCount bs tx) = output_addresses_accumulate tx"
  "output_txs_accumulate (fold updateTransactionCount bs tx) = output_txs_accumulate tx"
  "avm_outputs (fold updateTransactionCount bs tx) = avm_outputs tx"
  "avm_output_addresses (fold updateTransactionCount bs tx) = avm_output_addresses tx"
  "avm_outputs_redeeming (fold updateTransactionCount bs tx) = avm_outputs_redeeming tx"
  by (induction bs arbitrary: tx) simp_all

lemma fold_markTransaction_frame [simp]:
  "output_addresses_accumulate (fold markTransaction rows tx) = output_addresses_accumulate tx"
  "avm_outputs (fold markTransaction rows tx) = avm_outputs tx"
  "avm_output_addresses (fold markTransaction rows tx) = avm_output_addresses tx"
  "avm_outputs_redeeming (fold markTransaction rows tx) = avm_outputs_redeeming tx"
  "accumulate_balances (fold markTransaction rows tx) = accumulate_balances tx"
  by (induction rows arbitrary: tx) simp_all

text \<open>The seeded rows: new keys only, each once, all counters zero.\<close>

lemma seedRow_rows:
  "accumulate_balances (seedRow b tx) =
     accumulate_balances tx @
       (if ID b \<in> ID ` set (accumulate_balances tx) then []
        else [b\<lparr>TransactionCount := 0, TotalReceived := 0, TotalSent := 0, UtxoCount := 0\<rparr>])"
  by (simp add: seedRow_def)

lemma fold_seedRow_rows:
  "\<exists>new. accumulate_balances (fold seedRow bs tx) = accumulate_balances tx @ new \<and>
         distinct (map ID new) \<and>
         ID ` set new \<inter> ID ` set (accumulate_balances tx) = {} \<and>
         ID ` set new \<subseteq> ID ` set bs \<and>
         ID ` set bs \<subseteq> ID ` set (accumulate_balances tx) \<union> ID ` set new \<and>
         (\<forall>r\<in>set new. TransactionCount r = 0 \<and> TotalReceived r = 0 \<and>
                        TotalSent r = 0 \<and> UtxoCount r = 0)"
proof (induction bs arbitrary: tx)
  case Nil
  show ?case by simp
next
  case (Cons b bs)
  obtain new where n: "accumulate_balances (fold seedRow bs (seedRow b tx)) =
        accumulate_balances (seedRow b tx) @ new"
    "distinct (map ID new)"
    "ID ` set new \<inter> ID ` set (accumulate_balances (seedRow b tx)) = {}"
    "ID ` set new \<subseteq> ID ` set bs"
    "ID ` set bs \<subseteq> ID ` set (accumulate_balances (seedRow b tx)) \<union> ID ` set new"
    "\<forall>r\<in>set new. TransactionCount r = 0 \<and> TotalReceived r = 0 \<and>
                        TotalSent r = 0 \<and> UtxoCount r = 0"
    using Cons.IH [of "seedRow b tx"] by blast
  show ?case
  proof (cases "ID b \<in> ID ` set (accumulate_balances tx)")
    case True
    with n show ?thesis
      by (intro exI [of _ new]) (auto simp: seedRow_rows)
  next
    case False
    let ?z = "b\<lparr>TransactionCount := 0, TotalReceived := 0, TotalSent := 0, UtxoCount := 0\<rparr>"
    from False n show ?thesis
      by (intro exI [of _ "?z # new"]) (auto simp: seedRow_rows)
  qed
qed

subsection \<open>The counters after the transaction pass\<close>

lemma fold_updateTransactionCount_rows:
  "map (\<lambda>r. (ID r, TransactionCount r)) (accumulate_balances (fold updateTransactionCount bs tx)) =
   map (\<lambda>r. (ID r, TransactionCount r + int (length (filter (\<lambda>b. ID b = ID r) bs))))
     (accumulate_balances tx)"
proof (induction bs arbitrary: tx)
  case Nil
  show ?case by simp
next
  case (Cons b bs)
  have "map (\<lambda>r. (ID r, TransactionCount r + int (length (filter (\<lambda>b. ID b = ID r) bs))))
          (accumulate_balances (updateTransactionCount b tx)) =
        map (\<lambda>r. (ID r, TransactionCount r + int (length (filter (\<lambda>b. ID b = ID r) (b # bs)))))
          (accumulate_balances tx)"
    by (simp add: updateTransactionCount_def)
  with Cons.IH [of "updateTransactionCount b tx"] show ?case by simp
qed

lemma keyed_count:
  "list_all2 (\<lambda>row b. H (ot_chain_id row) (ot_asset_id row) (ot_address row) = Inr (ID b)) rows bs \<Longrightarrow>
     length (filter (\<lambda>b. ID b = k) bs) =
     length (filter (\<lambda>row. H (ot_chain_id row) (ot_asset_id row) (ot_address row) = Inr k) rows)"
  by (induction rows bs rule: list_all2_induct) auto

lemma keyed_transactions:
  "list_all2 (\<lambda>b b'. ComputeID H b = Inr b')
     (map (\<lambda>row. \<lparr>ID = [], ChainID = ot_chain_id row, AssetID = ot_asset_id row,
                   Address = ot_address row, TransactionCount = 0, TotalReceived = 0,
                   TotalSent = 0, UtxoCount = 0\<rparr>) rows) bs \<Longrightarrow>
   list_all2 (\<lambda>row b. H (ot_chain_id row) (ot_asset_id row) (ot_address row) = Inr (ID b)) rows bs"
  by (auto simp: list_all2_map1 ComputeID_def split: sum.splits elim!: list_all2_mono)

lemma fold_markTransaction_rows:
  "output_txs_accumulate (fold markTransaction rows tx) =
     map (\<lambda>r. if ot_id r \<in> ot_id ` set rows then r\<lparr>ot_processed := 1\<rparr> else r)
       (output_txs_accumulate tx)"
proof (induction rows arbitrary: tx)
  case Nil
  show ?case by (simp add: map_idI)
next
  case (Cons row rows)
  show ?case
    unfolding fold_Cons comp_apply Cons.IH
    by (auto simp: markTransaction_def)
qed

text \<open>The transaction pass that commits, as one expression over the tables.\<close>

lemma processTransactions_effect:
  assumes "processTransactions H s = (s', Inr n)" and "0 < n"
  shows "\<exists>bs. list_all2 (\<lambda>row b. H (ot_chain_id row) (ot_asset_id row) (ot_address row) = Inr (ID b))
                 (claimTransactions (tables s)) bs \<and>
              tables s' = fold markTransaction (claimTransactions (tables s))
                            (fold updateTransactionCount bs (fold seedRow bs (tables s)))"
proof -
  from processTransactions_commit [OF assms] obtain tx2 bs tx4 where
    a: "seedTransactions H (claimTransactions (tables s)) [] (tables s) = ([], Inr (tx2, bs))"
    and b: "countTransactions bs [] tx2 = ([], Inr tx4)"
    and c: "markTransactions (claimTransactions (tables s)) [] tx4 = ([], Inr (tables s'))"
    by blast
  from a have "list_all2 (\<lambda>row b. H (ot_chain_id row) (ot_asset_id row) (ot_address row) = Inr (ID b))
                 (claimTransactions (tables s)) bs" and "tx2 = fold seedRow bs (tables s)"
    unfolding seedTransactions_seedBalances
    by (auto dest!: seedBalances_fold keyed_transactions)
  with b c show ?thesis
    by (auto simp: countTransactions_fold markTransactions_fold)
qed

text \<open>Every claimed row, processed in turn, when nothing fails.\<close>

lemma outputRows_step:
  assumes "outputRows H typ (row # rows) [] tx = ([], Inr tx')"
  shows "(selectBalances tx (rowID row) (rowAddress row) = [] \<and>
            outputRows H typ rows [] tx = ([], Inr tx')) \<or>
         (\<exists>bs. selectBalances tx (rowID row) (rowAddress row) \<noteq> [] \<and>
            list_all2 (\<lambda>b b'. ComputeID H b = Inr b')
              (selectBalances tx (rowID row) (rowAddress row)) bs \<and>
            outputRows H typ rows []
              (markOutput typ row (fold (updateBalance typ) bs (fold seedRow bs tx))) = ([], Inr tx'))"
  using outputRows_Cons [OF assms] by (auto dest!: seedBalances_fold)

lemma outputRows_invariant:
  assumes "outputRows H typ rows [] tx = ([], Inr tx')" and "Q tx"
    and "\<And>row bs tx. Q tx \<Longrightarrow> row \<in> set rows \<Longrightarrow>
           list_all2 (\<lambda>b b'. ComputeID H b = Inr b') (selectBalances tx (rowID row) (rowAddress row)) bs \<Longrightarrow>
           bs \<noteq> [] \<Longrightarrow>
           Q (markOutput typ row (fold (updateBalance typ) bs (fold seedRow bs tx)))"
  shows "Q tx'"
  using assms
proof (induction rows arbitrary: tx)
  case Nil
  then show ?case by simp
next
  case (Cons row rows)
  from outputRows_step [OF Cons.prems(1)] show ?case
  proof (elim disjE conjE exE)
    assume "outputRows H typ rows [] tx = ([], Inr tx')"
    then show ?thesis
      using Cons.prems(2,3) by (intro Cons.IH [of tx]) auto
  next
    fix bs
    assume n: "selectBalances tx (rowID row) (rowAddress row) \<noteq> []"
      and k: "list_all2 (\<lambda>b b'. ComputeID H b = Inr b')
                (selectBalances tx (rowID row) (rowAddress row)) bs"
      and r: "outputRows H typ rows []
                (markOutput typ row (fold (updateBalance typ) bs (fold seedRow bs tx))) = ([], Inr tx')"
    from n k have "bs \<noteq> []" by (auto simp: list_all2_Nil2)
    with Cons.prems(2) k
    have "Q (markOutput typ row (fold (updateBalance typ) bs (fold seedRow bs tx)))"
      by (intro Cons.prems(3)) auto
    with r show ?thesis
      using Cons.prems(3) by (intro Cons.IH) auto
  qed
qed

subsection \<open>The columns a pass does not write\<close>

lemma fold_seedRow_columns:
  assumes "\<And>r. P (r\<lparr>TransactionCount := 0, TotalReceived := 0, TotalSent := 0, UtxoCount := 0\<rparr>) = Z (ID r)"
  shows "\<exists>new. map P (accumulate_balances (fold seedRow bs tx)) =
           map P (accumulate_balances tx) @ map Z new"
proof (induction bs arbitrary: tx)
  case Nil
  show ?case by (intro exI [of _ "[]"]) simp
next
  case (Cons b bs)
  from Cons.IH [of "seedRow b tx"] obtain new where
    "map P (accumulate_balances (fold seedRow bs (seedRow b tx))) =
       map P (accumulate_balances (seedRow b tx)) @ map Z new"
    by blast
  then show ?case
    by (cases "ID b \<in> ID ` set (accumulate_balances tx)")
       (auto simp: seedRow_rows assms intro: exI [of _ "ID b # new"] exI [of _ new])
qed

lemma fold_updateBalance_columns:
  assumes "\<And>b tx. map P (accumulate_balances (updateBalance typ b tx)) = map P (accumulate_balances tx)"
  shows "map P (accumulate_balances (fold (updateBalance typ) bs tx)) = map P (accumulate_balances tx)"
  by (induction bs arbitrary: tx) (simp_all add: assms)

lemma outputRows_columns:
  assumes "outputRows H typ rows [] tx = ([], Inr tx')"
    and "\<And>r. P (r\<lparr>TransactionCount := 0, TotalReceived := 0, TotalSent := 0, UtxoCount := 0\<rparr>) = Z (ID r)"
    and "\<And>b tx. map P (accumulate_balances (updateBalance typ b tx)) = map P (accumulate_balances tx)"
  shows "\<exists>new. map P (accumulate_balances tx') = map P (accumulate_balances tx) @ map Z new"
proof (rule outputRows_invariant [OF assms(1)])
  show "\<exists>new. map P (accumulate_balances tx) = map P (accumulate_balances tx) @ map Z new"
    by (intro exI [of _ "[]"]) simp
next
  fix row bs and tx0 :: database
  assume "\<exists>new. map P (accumulate_balances tx0) = map P (accumulate_balances tx) @ map Z new"
  then obtain new where n: "map P (accumulate_balances tx0) = map P (accumulate_balances tx) @ map Z new"
    by blast
  from fold_seedRow_columns [of P Z bs tx0, OF assms(2)] obtain new' where
    "map P (accumulate_balances (fold seedRow bs tx0)) = map P (accumulate_balances tx0) @ map Z new'"
    by blast
  with n show "\<exists>new. map P (accumulate_balances
                  (markOutput typ row (fold (updateBalance typ) bs (fold seedRow bs tx0)))) =
                map P (accumulate_balances tx) @ map Z new"
    by (intro exI [of _ "new @ new'"]) (simp add: fold_updateBalance_columns [of P, OF assms(3)])
qed

lemma processOutputs_columns:
  assumes "processOutputs H typ s = (s', r)"
    and "\<And>r. P (r\<lparr>TransactionCount := 0, TotalReceived := 0, TotalSent := 0, UtxoCount := 0\<rparr>) = Z (ID r)"
    and "\<And>b tx. map P (accumulate_balances (updateBalance typ b tx)) = map P (accumulate_balances tx)"
  shows "\<exists>new. map P (accumulate_balances (tables s')) =
           map P (accumulate_balances (tables s)) @ map Z new"
proof (cases r)
  case (Inl e)
  with assms(1) processOutputs_error [of H "typ" s s' e] show ?thesis
    by (intro exI [of _ "[]"]) simp
next
  case (Inr n)
  show ?thesis
  proof (cases "n = 0")
    case True
    with Inr assms(1) processOutputs_empty [of H "typ" s s'] show ?thesis
      by (intro exI [of _ "[]"]) simp
  next
    case False
    with Inr assms(1) processOutputs_commit [of H "typ" s s' n]
    have "outputRows H typ (claimOutputs typ (tables s)) [] (tables s) = ([], Inr (tables s'))"
      by simp
    from outputRows_columns [OF this assms(2,3)] show ?thesis .
  qed
qed

lemma fold_updateTransactionCount_columns:
  "map (\<lambda>r. (ID r, UtxoCount r, TotalReceived r, TotalSent r))
     (accumulate_balances (fold updateTransactionCount bs tx)) =
   map (\<lambda>r. (ID r, UtxoCount r, TotalReceived r, TotalSent r)) (accumulate_balances tx)"
  by (induction bs arbitrary: tx) (simp_all add: updateTransactionCount_def comp_def if_distrib cong: if_cong)

lemma processTransactions_columns:
  assumes "processTransactions H s = (s', r)"
  shows "\<exists>new. map (\<lambda>r. (ID r, UtxoCount r, TotalReceived r, TotalSent r))
                 (accumulate_balances (tables s')) =
               map (\<lambda>r. (ID r, UtxoCount r, TotalReceived r, TotalSent r))
                 (accumulate_balances (tables s)) @ map (\<lambda>k. (k, 0, 0, 0)) new"
proof (cases r)
  case (Inl e)
  with assms(1) processTransactions_error [of H s s' e] show ?thesis
    by (intro exI [of _ "[]"]) simp
next
  case (Inr n)
  show ?thesis
  proof (cases "n = 0")
    case True
    with Inr assms(1) processTransactions_empty [of H s s'] show ?thesis
      by (intro exI [of _ "[]"]) simp
  next
    case False
    with Inr assms processTransactions_effect [of H s s' n] obtain bs where
      t: "tables s' = fold markTransaction (claimTransactions (tables s))
                (fold updateTransactionCount bs (fold seedRow bs (tables s)))"
      by auto
    from fold_seedRow_columns [of "\<lambda>r. (ID r, UtxoCount r, TotalReceived r, TotalSent r)"
        "\<lambda>k. (k, 0, 0, 0)" bs "tables s"]
    show ?thesis
      unfolding t by (simp add: fold_updateTransactionCount_columns)
  qed
qed

section \<open>The transaction counter\<close>

text \<open>
  C7. A transaction pass that returns a count has added to the \<open>transaction_count\<close> of
  every aggregate row the number of claimed staging rows whose key is that row's, one
  increment per staging row. The rows it created are for keys that had no row, one row
  per key, and their count is the number of claimed rows of the key. Every claimed row has
  its aggregate row, and every staging row with the id of a claimed row has
  \<open>processed = 1\<close>.
\<close>

theorem C7_one_increment_per_staging_row:
  assumes "processTransactions H s = (s', Inr n)"
  shows "(\<exists>new. distinct new \<and> set new \<inter> ID ` set (accumulate_balances (tables s)) = {} \<and>
           map (\<lambda>b. (ID b, TransactionCount b)) (accumulate_balances (tables s')) =
             map (\<lambda>b. (ID b, TransactionCount b +
                    int (length (filter (\<lambda>row. H (ot_chain_id row) (ot_asset_id row) (ot_address row) = Inr (ID b))
                           (claimTransactions (tables s))))))
               (accumulate_balances (tables s)) @
             map (\<lambda>k. (k,
                    int (length (filter (\<lambda>row. H (ot_chain_id row) (ot_asset_id row) (ot_address row) = Inr k)
                           (claimTransactions (tables s))))))
               new) \<and>
         (\<forall>row\<in>set (claimTransactions (tables s)).
           \<exists>b\<in>set (accumulate_balances (tables s')).
             H (ot_chain_id row) (ot_asset_id row) (ot_address row) = Inr (ID b)) \<and>
         (\<forall>r\<in>set (output_txs_accumulate (tables s')).
           ot_id r \<in> ot_id ` set (claimTransactions (tables s)) \<longrightarrow> ot_processed r = 1)"
proof (intro conjI)
  let ?rows = "claimTransactions (tables s)"
  let ?key = "\<lambda>row. H (ot_chain_id row) (ot_asset_id row) (ot_address row)"
  let ?cnt = "\<lambda>k. int (length (filter (\<lambda>row. ?key row = Inr k) ?rows))"
  have n: "n = length ?rows"
    using assms by (rule processTransactions_count)
  show "\<exists>new. distinct new \<and> set new \<inter> ID ` set (accumulate_balances (tables s)) = {} \<and>
           map (\<lambda>b. (ID b, TransactionCount b)) (accumulate_balances (tables s')) =
             map (\<lambda>b. (ID b, TransactionCount b + ?cnt (ID b))) (accumulate_balances (tables s)) @
             map (\<lambda>k. (k, ?cnt k)) new"
  proof (cases "n = 0")
    case True
    with n assms processTransactions_empty [of H s s'] show ?thesis
      by (intro exI [of _ "[]"]) simp
  next
    case False
    with processTransactions_effect [OF assms] obtain bs where
      k: "list_all2 (\<lambda>row b. ?key row = Inr (ID b)) ?rows bs"
      and t: "tables s' = fold markTransaction ?rows
                (fold updateTransactionCount bs (fold seedRow bs (tables s)))"
      by auto
    from fold_seedRow_rows [of bs "tables s"] obtain new where
      new: "accumulate_balances (fold seedRow bs (tables s)) = accumulate_balances (tables s) @ new"
        "distinct (map ID new)"
        "ID ` set new \<inter> ID ` set (accumulate_balances (tables s)) = {}"
        "\<forall>r\<in>set new. TransactionCount r = 0 \<and> TotalReceived r = 0 \<and>
                        TotalSent r = 0 \<and> UtxoCount r = 0"
      by blast
    have c: "int (length (filter (\<lambda>b. ID b = k) bs)) = ?cnt k" for k
      using keyed_count [OF k] by simp
    have "map (\<lambda>b. (ID b, TransactionCount b)) (accumulate_balances (tables s')) =
          map (\<lambda>b. (ID b, TransactionCount b + ?cnt (ID b))) (accumulate_balances (tables s) @ new)"
      unfolding t by (simp add: fold_updateTransactionCount_rows new(1) c)
    also have "\<dots> = map (\<lambda>b. (ID b, TransactionCount b + ?cnt (ID b))) (accumulate_balances (tables s)) @
          map (\<lambda>k. (k, ?cnt k)) (map ID new)"
      using new(4) by simp
    finally show ?thesis
      using new(2,3) by (intro exI [of _ "map ID new"]) simp
  qed
  show "\<forall>row\<in>set ?rows. \<exists>b\<in>set (accumulate_balances (tables s')). ?key row = Inr (ID b)"
  proof (cases "n = 0")
    case True
    with n show ?thesis by simp
  next
    case False
    with processTransactions_effect [OF assms] obtain bs where
      k: "list_all2 (\<lambda>row b. ?key row = Inr (ID b)) ?rows bs"
      and t: "tables s' = fold markTransaction ?rows
                (fold updateTransactionCount bs (fold seedRow bs (tables s)))"
      by auto
    from fold_seedRow_rows [of bs "tables s"]
    have sub: "ID ` set bs \<subseteq> ID ` set (accumulate_balances (fold seedRow bs (tables s)))"
      by auto
    have ids: "map ID (accumulate_balances (tables s')) =
               map ID (accumulate_balances (fold seedRow bs (tables s)))"
      using arg_cong [OF fold_updateTransactionCount_rows [of bs "fold seedRow bs (tables s)"],
          of "map fst"]
      unfolding t by (simp add: comp_def)
    show ?thesis
    proof
      fix row assume "row \<in> set ?rows"
      with k obtain b where "b \<in> set bs" "?key row = Inr (ID b)"
        by (metis (mono_tags, lifting) in_set_conv_nth list_all2_conv_all_nth)
      moreover from this sub have "ID b \<in> set (map ID (accumulate_balances (tables s')))"
        unfolding ids by auto
      ultimately show "\<exists>b\<in>set (accumulate_balances (tables s')). ?key row = Inr (ID b)"
        by auto
    qed
  qed
  show "\<forall>r\<in>set (output_txs_accumulate (tables s')).
           ot_id r \<in> ot_id ` set ?rows \<longrightarrow> ot_processed r = 1"
  proof (cases "n = 0")
    case True
    with n show ?thesis by simp
  next
    case False
    with processTransactions_effect [OF assms] obtain bs where
      t: "tables s' = fold markTransaction ?rows
                (fold updateTransactionCount bs (fold seedRow bs (tables s)))"
      by auto
    show ?thesis
      unfolding t by (auto simp: fold_markTransaction_rows)
  qed
qed


theorem C7_one_increment_per_staging_row_witness:
  "snd (processTransactions sampleHash (freshSession scenarioOne [])) = Inr 3 \<and>
   map (\<lambda>b. (ID b, TransactionCount b))
     (accumulate_balances (tables (fst (processTransactions sampleHash (freshSession scenarioOne []))))) =
     [(''C:S:A'', 3)] \<and>
   map (\<lambda>r. (ot_id r, ot_processed r))
     (output_txs_accumulate (tables (fst (processTransactions sampleHash (freshSession scenarioOne []))))) =
     [(''1'', 1), (''2'', 1), (''3'', 1)] \<and>
   (\<exists>b\<in>set (accumulate_balances
              (tables (fst (processTransactions sampleHash (freshSession scenarioOne []))))).
      sampleHash ''C'' ''S'' ''A'' = Inr (ID b))"
proof -
  let ?s = "freshSession scenarioOne []"
  let ?s' = "fst (processTransactions sampleHash ?s)"
  have n: "snd (processTransactions sampleHash ?s) = Inr 3"
    by code_simp
  have a: "map (\<lambda>b. (ID b, TransactionCount b)) (accumulate_balances (tables ?s')) = [(''C:S:A'', 3)]"
    by code_simp
  have b: "map (\<lambda>r. (ot_id r, ot_processed r)) (output_txs_accumulate (tables ?s')) =
      [(''1'', 1), (''2'', 1), (''3'', 1)]"
    by code_simp
  have r: "\<lparr>ot_id = ''1'', ot_chain_id = ''C'', ot_asset_id = ''S'', ot_address = ''A'',
          ot_transaction_id = ''T1'', ot_processed = 0\<rparr> \<in> set (claimTransactions (tables ?s))"
    by (simp add: claimTransactions_def freshSession_def scenarioOne_def RowLintValue_def)
  from n have "processTransactions sampleHash ?s = (?s', Inr 3)"
    by (metis prod.collapse)
  from C7_one_increment_per_staging_row [OF this]
  have "\<forall>row\<in>set (claimTransactions (tables ?s)).
           \<exists>b\<in>set (accumulate_balances (tables ?s')).
             sampleHash (ot_chain_id row) (ot_asset_id row) (ot_address row) = Inr (ID b)"
    by blast
  with r have "\<exists>b\<in>set (accumulate_balances (tables ?s')). sampleHash ''C'' ''S'' ''A'' = Inr (ID b)"
    by fastforce
  with n a b show ?thesis by blast
qed

section \<open>The columns a pass leaves alone\<close>

text \<open>
  C10. Whatever a pass returns, the rows of \<open>accumulate_balances\<close> that were there before
  it keep their place, their key and the columns outside the direction of the pass, and
  the rows it adds have zero in those columns: \<open>total_sent\<close> and \<open>transaction_count\<close> for
  the OUT direction, \<open>total_received\<close> and \<open>transaction_count\<close> for the IN direction,
  \<open>utxo_count\<close>, \<open>total_received\<close> and \<open>total_sent\<close> for the transaction pass. So the
  \<open>transaction_count\<close> that the aggregation query selects is never written.
\<close>

theorem C10_columns_outside_the_direction:
  "(processOutputs H processTypeOut s = (s', r) \<longrightarrow>
      (\<exists>new. map (\<lambda>b. (ID b, TotalSent b, TransactionCount b)) (accumulate_balances (tables s')) =
             map (\<lambda>b. (ID b, TotalSent b, TransactionCount b)) (accumulate_balances (tables s)) @
             map (\<lambda>k. (k, 0, 0)) new)) \<and>
   (processOutputs H processTypeIn s = (s', r) \<longrightarrow>
      (\<exists>new. map (\<lambda>b. (ID b, TotalReceived b, TransactionCount b)) (accumulate_balances (tables s')) =
             map (\<lambda>b. (ID b, TotalReceived b, TransactionCount b)) (accumulate_balances (tables s)) @
             map (\<lambda>k. (k, 0, 0)) new)) \<and>
   (processTransactions H s = (s', r) \<longrightarrow>
      (\<exists>new. map (\<lambda>b. (ID b, UtxoCount b, TotalReceived b, TotalSent b))
               (accumulate_balances (tables s')) =
             map (\<lambda>b. (ID b, UtxoCount b, TotalReceived b, TotalSent b))
               (accumulate_balances (tables s)) @
             map (\<lambda>k. (k, 0, 0, 0)) new))"
proof (intro conjI impI)
  assume "processOutputs H processTypeOut s = (s', r)"
  then show "\<exists>new. map (\<lambda>b. (ID b, TotalSent b, TransactionCount b)) (accumulate_balances (tables s')) =
             map (\<lambda>b. (ID b, TotalSent b, TransactionCount b)) (accumulate_balances (tables s)) @
             map (\<lambda>k. (k, 0, 0)) new"
    by (rule processOutputs_columns)
       (simp_all add: updateBalance_def comp_def if_distrib cong: if_cong)
next
  assume "processOutputs H processTypeIn s = (s', r)"
  then show "\<exists>new. map (\<lambda>b. (ID b, TotalReceived b, TransactionCount b)) (accumulate_balances (tables s')) =
             map (\<lambda>b. (ID b, TotalReceived b, TransactionCount b)) (accumulate_balances (tables s)) @
             map (\<lambda>k. (k, 0, 0)) new"
    by (rule processOutputs_columns)
       (simp_all add: updateBalance_def comp_def if_distrib cong: if_cong)
next
  assume "processTransactions H s = (s', r)"
  then show "\<exists>new. map (\<lambda>b. (ID b, UtxoCount b, TotalReceived b, TotalSent b))
               (accumulate_balances (tables s')) =
             map (\<lambda>b. (ID b, UtxoCount b, TotalReceived b, TotalSent b))
               (accumulate_balances (tables s)) @
             map (\<lambda>k. (k, 0, 0, 0)) new"
    by (rule processTransactions_columns)
qed


theorem C10_columns_outside_the_direction_witness:
  "(\<exists>new. map (\<lambda>b. (ID b, TotalSent b, TransactionCount b))
            (accumulate_balances (tables (fst (processOutputs sampleHash processTypeOut
               (freshSession scenarioOne []))))) =
          map (\<lambda>b. (ID b, TotalSent b, TransactionCount b))
            (accumulate_balances (tables (freshSession scenarioOne []))) @ map (\<lambda>k. (k, 0, 0)) new) \<and>
   (\<exists>new. map (\<lambda>b. (ID b, TotalReceived b, TransactionCount b))
            (accumulate_balances (tables (fst (processOutputs sampleHash processTypeIn
               (freshSession scenarioTwo []))))) =
          map (\<lambda>b. (ID b, TotalReceived b, TransactionCount b))
            (accumulate_balances (tables (freshSession scenarioTwo []))) @ map (\<lambda>k. (k, 0, 0)) new) \<and>
   (\<exists>new. map (\<lambda>b. (ID b, UtxoCount b, TotalReceived b, TotalSent b))
            (accumulate_balances (tables (fst (processTransactions sampleHash
               (freshSession scenarioOne []))))) =
          map (\<lambda>b. (ID b, UtxoCount b, TotalReceived b, TotalSent b))
            (accumulate_balances (tables (freshSession scenarioOne []))) @ map (\<lambda>k. (k, 0, 0, 0)) new) \<and>
   accumulate_balances (tables (fst (processOutputs sampleHash processTypeOut
      (freshSession scenarioOne [])))) =
     [\<lparr>ID = ''C:S:A'', ChainID = ''C'', AssetID = ''S'', Address = ''A'',
       TransactionCount = 0, TotalReceived = 10, TotalSent = 0, UtxoCount = 1\<rparr>] \<and>
   accumulate_balances (tables (fst (processOutputs sampleHash processTypeIn
      (freshSession scenarioTwo [])))) =
     [\<lparr>ID = ''C:S:A'', ChainID = ''C'', AssetID = ''S'', Address = ''A'',
       TransactionCount = 3, TotalReceived = 10, TotalSent = 10, UtxoCount = 0\<rparr>] \<and>
   accumulate_balances (tables (fst (processTransactions sampleHash
      (freshSession scenarioOne [])))) =
     [\<lparr>ID = ''C:S:A'', ChainID = ''C'', AssetID = ''S'', Address = ''A'',
       TransactionCount = 3, TotalReceived = 0, TotalSent = 0, UtxoCount = 0\<rparr>]"
proof -
  let ?one = "freshSession scenarioOne []"
  let ?two = "freshSession scenarioTwo []"
  note t = C10_columns_outside_the_direction
  have a: "accumulate_balances (tables (fst (processOutputs sampleHash processTypeOut ?one))) =
     [\<lparr>ID = ''C:S:A'', ChainID = ''C'', AssetID = ''S'', Address = ''A'',
       TransactionCount = 0, TotalReceived = 10, TotalSent = 0, UtxoCount = 1\<rparr>]"
    by code_simp
  have b: "accumulate_balances (tables (fst (processOutputs sampleHash processTypeIn ?two))) =
     [\<lparr>ID = ''C:S:A'', ChainID = ''C'', AssetID = ''S'', Address = ''A'',
       TransactionCount = 3, TotalReceived = 10, TotalSent = 10, UtxoCount = 0\<rparr>]"
    by code_simp
  have c: "accumulate_balances (tables (fst (processTransactions sampleHash ?one))) =
     [\<lparr>ID = ''C:S:A'', ChainID = ''C'', AssetID = ''S'', Address = ''A'',
       TransactionCount = 3, TotalReceived = 0, TotalSent = 0, UtxoCount = 0\<rparr>]"
    by code_simp
  have "processOutputs sampleHash processTypeOut ?one =
      (fst (processOutputs sampleHash processTypeOut ?one),
       snd (processOutputs sampleHash processTypeOut ?one))"
    by simp
  from t [THEN conjunct1, rule_format, OF this]
  have a': "\<exists>new. map (\<lambda>b. (ID b, TotalSent b, TransactionCount b))
            (accumulate_balances (tables (fst (processOutputs sampleHash processTypeOut ?one)))) =
          map (\<lambda>b. (ID b, TotalSent b, TransactionCount b))
            (accumulate_balances (tables ?one)) @ map (\<lambda>k. (k, 0, 0)) new" .
  have "processOutputs sampleHash processTypeIn ?two =
      (fst (processOutputs sampleHash processTypeIn ?two),
       snd (processOutputs sampleHash processTypeIn ?two))"
    by simp
  from t [THEN conjunct2, THEN conjunct1, rule_format, OF this]
  have b': "\<exists>new. map (\<lambda>b. (ID b, TotalReceived b, TransactionCount b))
            (accumulate_balances (tables (fst (processOutputs sampleHash processTypeIn ?two)))) =
          map (\<lambda>b. (ID b, TotalReceived b, TransactionCount b))
            (accumulate_balances (tables ?two)) @ map (\<lambda>k. (k, 0, 0)) new" .
  have "processTransactions sampleHash ?one =
      (fst (processTransactions sampleHash ?one), snd (processTransactions sampleHash ?one))"
    by simp
  from t [THEN conjunct2, THEN conjunct2, rule_format, OF this]
  have c': "\<exists>new. map (\<lambda>b. (ID b, UtxoCount b, TotalReceived b, TotalSent b))
            (accumulate_balances (tables (fst (processTransactions sampleHash ?one)))) =
          map (\<lambda>b. (ID b, UtxoCount b, TotalReceived b, TotalSent b))
            (accumulate_balances (tables ?one)) @ map (\<lambda>k. (k, 0, 0, 0)) new" .
  from a b c a' b' c' show ?thesis by blast
qed

section \<open>Conservation in a pass\<close>

subsection \<open>Lists with a key\<close>

lemma concat_match:
  assumes "distinct (map key us)"
  shows "concat (map (\<lambda>u. if c = key u then G else []) us) = (if c \<in> key ` set us then G else [])"
  using assms by (induction us) auto

lemma sum_match:
  assumes "distinct (map key us)" and "u0 \<in> set us"
  shows "(\<Sum>u\<leftarrow>us. if key u = key u0 \<and> P u then f u else (0::int)) = (if P u0 then f u0 else 0)"
  using assms
proof (induction us)
  case Nil
  then show ?case by simp
next
  case (Cons u us)
  show ?case
  proof (cases "u = u0")
    case True
    with Cons.prems(1) have "\<forall>v\<in>set us. key v \<noteq> key u0" by (auto simp: image_iff)
    then have "(\<Sum>u\<leftarrow>us. if key u = key u0 \<and> P u then f u else 0) = 0"
      by (induction us) auto
    with True show ?thesis by simp
  next
    case False
    with Cons.prems have "u0 \<in> set us" "key u \<noteq> key u0" by (auto simp: image_iff)
    with Cons.IH Cons.prems(1) show ?thesis by simp
  qed
qed

lemma sum_no_match:
  assumes "\<forall>u\<in>set us. key u \<noteq> c"
  shows "(\<Sum>u\<leftarrow>us. if key u = c \<and> P u then f u else (0::int)) = 0"
  using assms by (induction us) auto

lemma sum_update_one:
  assumes "distinct (map key xs)" and "x0 \<in> set xs"
  shows "(\<Sum>x\<leftarrow>xs. h (if key x = key x0 then upd x else x)) =
         (\<Sum>x\<leftarrow>xs. h x) - h x0 + (h (upd x0) :: int)"
  using assms
proof (induction xs)
  case Nil
  then show ?case by simp
next
  case (Cons x xs)
  show ?case
  proof (cases "x = x0")
    case True
    with Cons.prems(1) have "\<forall>v\<in>set xs. key v \<noteq> key x0" by (auto simp: image_iff)
    then have "(\<Sum>x\<leftarrow>xs. h (if key x = key x0 then upd x else x)) = (\<Sum>x\<leftarrow>xs. h x)"
      by (induction xs) auto
    with True show ?thesis by simp
  next
    case False
    with Cons.prems have "x0 \<in> set xs" "key x \<noteq> key x0" by (auto simp: image_iff)
    with Cons.IH Cons.prems(1) show ?thesis by simp
  qed
qed

lemma filter_key_unique:
  assumes "distinct (map key xs)" and "x0 \<in> set xs"
  shows "filter (\<lambda>x. key x = key x0) xs = [x0]"
  using assms
proof (induction xs)
  case Nil
  then show ?case by simp
next
  case (Cons x xs)
  show ?case
  proof (cases "x = x0")
    case True
    with Cons.prems(1) have "\<forall>v\<in>set xs. key v \<noteq> key x0" by (auto simp: image_iff)
    then have "filter (\<lambda>x. key x = key x0) xs = []" by (auto simp: filter_empty_conv)
    with True show ?thesis by simp
  next
    case False
    with Cons.prems have "x0 \<in> set xs" "key x \<noteq> key x0" by (auto simp: image_iff)
    with Cons.IH Cons.prems(1) show ?thesis by simp
  qed
qed

lemma concat_match_at:
  assumes "distinct (map key us)" and "u0 \<in> set us"
  shows "concat (map (\<lambda>u. if key u0 = key u then G u else []) us) = G u0"
  using assms
proof (induction us)
  case Nil
  then show ?case by simp
next
  case (Cons u us)
  show ?case
  proof (cases "u = u0")
    case True
    with Cons.prems(1) have "\<forall>v\<in>set us. key u0 \<noteq> key v" by (auto simp: image_iff)
    then have "concat (map (\<lambda>u. if key u0 = key u then G u else []) us) = []"
      by (induction us) auto
    with True show ?thesis by simp
  next
    case False
    with Cons.prems have "u0 \<in> set us" "key u0 \<noteq> key u" by (auto simp: image_iff)
    with Cons.IH Cons.prems(1) show ?thesis by simp
  qed
qed

lemma concat_filter_map:
  "concat (map (\<lambda>x. if P x then [f x] else []) xs) = map f (filter P xs)"
  by (induction xs) auto

subsection \<open>The queries under the primary keys\<close>

lemma claimOutputs_keys:
  assumes "primaryKeys db"
  shows "claimOutputs typ db =
           take RowLintValue
             (map (\<lambda>x. \<lparr>rowID = oa_id x, rowAddress = oa_address x\<rparr>)
                (filter (\<lambda>x. flagOf typ x = 0 \<and> oa_id x \<in> out_id ` set (avm_outputs db) \<and>
                              (typ = processTypeIn \<longrightarrow> oa_id x \<in> set (avm_outputs_redeeming db)))
                   (output_addresses_accumulate db)))"
proof -
  from assms have o: "distinct (map out_id (avm_outputs db))"
    and r: "distinct (map (\<lambda>r. r) (avm_outputs_redeeming db))"
    by (simp_all add: primaryKeys_def)
  show ?thesis
  proof (cases "typ")
    case processTypeOut
    have "concat (map (\<lambda>x. concat (map (\<lambda>u. if oa_id x = out_id u
                  then if oa_processed_out x = 0
                       then [\<lparr>rowID = oa_id x, rowAddress = oa_address x\<rparr>] else []
                  else []) (avm_outputs db))) (output_addresses_accumulate db)) =
          concat (map (\<lambda>x. if oa_processed_out x = 0 \<and> oa_id x \<in> out_id ` set (avm_outputs db)
                  then [\<lparr>rowID = oa_id x, rowAddress = oa_address x\<rparr>] else [])
                  (output_addresses_accumulate db))"
      unfolding concat_match [OF o]
      by (intro arg_cong [where f = concat] map_cong refl) auto
    with processTypeOut show ?thesis
      by (simp add: claimOutputs_def flagOf_def concat_filter_map)
  next
    case processTypeIn
    have "concat (map (\<lambda>x. concat (map (\<lambda>u. if oa_id x = out_id u
                  then concat (map (\<lambda>y. if oa_id x = y
                         then if oa_processed_in x = 0
                              then [\<lparr>rowID = oa_id x, rowAddress = oa_address x\<rparr>] else []
                         else []) (avm_outputs_redeeming db))
                  else []) (avm_outputs db))) (output_addresses_accumulate db)) =
          concat (map (\<lambda>x. if oa_processed_in x = 0 \<and> oa_id x \<in> out_id ` set (avm_outputs db) \<and>
                       oa_id x \<in> set (avm_outputs_redeeming db)
                  then [\<lparr>rowID = oa_id x, rowAddress = oa_address x\<rparr>] else [])
                  (output_addresses_accumulate db))"
      unfolding concat_match [OF r] concat_match [OF o]
      by (intro arg_cong [where f = concat] map_cong refl) auto
    with processTypeIn show ?thesis
      by (simp add: claimOutputs_def flagOf_def concat_filter_map)
  qed
qed

lemma selectBalances_unique:
  assumes "primaryKeys db" and "u0 \<in> set (avm_outputs db)" and "out_id u0 = i"
  shows "selectBalances db i a =
           (if (i, a) \<in> (\<lambda>x. (adr_output_id x, adr_address x)) ` set (avm_output_addresses db)
            then [\<lparr>ID = [], ChainID = out_chain_id u0, AssetID = out_asset_id u0, Address = a,
                   TransactionCount = 1, TotalReceived = out_amount u0,
                   TotalSent = out_amount u0, UtxoCount = 0\<rparr>]
            else [])"
proof -
  from assms(1) have o: "distinct (map out_id (avm_outputs db))"
    and d: "distinct (map (\<lambda>x. (adr_output_id x, adr_address x)) (avm_output_addresses db))"
    by (simp_all add: primaryKeys_def)
  let ?t = "\<lambda>u. (out_chain_id u, a, out_asset_id u, out_transaction_id u, out_amount u)"
  have inner: "concat (map (\<lambda>x. if out_id u = adr_output_id x
                  then if out_id u = i \<and> adr_address x = a
                       then [(out_chain_id u, adr_address x, out_asset_id u,
                              out_transaction_id u, out_amount u)] else []
                  else []) (avm_output_addresses db)) =
        (if (i, a) \<in> (\<lambda>x. (adr_output_id x, adr_address x)) ` set (avm_output_addresses db)
         then if out_id u = i then [?t u] else [] else [])" for u :: avm_outputs_row
  proof -
    have eq: "(\<lambda>x. if out_id u = adr_output_id x
                  then if out_id u = i \<and> adr_address x = a
                       then [(out_chain_id u, adr_address x, out_asset_id u,
                              out_transaction_id u, out_amount u)] else []
                  else []) =
          (\<lambda>x. if (i, a) = (adr_output_id x, adr_address x)
                then (if out_id u = i then [?t u] else []) else [])"
      by (auto simp: fun_eq_iff)
    show ?thesis
      unfolding eq by (rule concat_match [OF d])
  qed
  have "[(out_chain_id u, adr_address x, out_asset_id u, out_transaction_id u, out_amount u).
          u \<leftarrow> avm_outputs db, x \<leftarrow> avm_output_addresses db, out_id u = adr_output_id x,
          out_id u = i \<and> adr_address x = a] =
        concat (map (\<lambda>u. if out_id u0 = out_id u
           then (if (i, a) \<in> (\<lambda>x. (adr_output_id x, adr_address x)) ` set (avm_output_addresses db)
                 then [?t u] else [])
           else []) (avm_outputs db))"
    unfolding inner using assms(3) by (auto intro!: arg_cong [where f = concat])
  also have "\<dots> = (if (i, a) \<in> (\<lambda>x. (adr_output_id x, adr_address x)) ` set (avm_output_addresses db)
                 then [?t u0] else [])"
    by (rule concat_match_at [OF o assms(2)])
  finally show ?thesis
    by (simp add: selectBalances_def)
qed

subsection \<open>What the expected totals depend on\<close>

lemma staged_cong:
  "output_addresses_accumulate a = output_addresses_accumulate b \<Longrightarrow>
   avm_outputs a = avm_outputs b \<Longrightarrow> staged f H a = staged f H b"
  by (simp add: staged_def fun_eq_iff cong: if_cong)

lemma counted_cong:
  "output_txs_accumulate a = output_txs_accumulate b \<Longrightarrow> counted H a = counted H b"
  by (simp add: counted_def fun_eq_iff)

lemma flagOf_simps [simp]:
  "flagOf processTypeOut = oa_processed_out" "flagOf processTypeIn = oa_processed_in"
  by (simp_all add: flagOf_def fun_eq_iff)

text \<open>Setting the flag of one staging row adds the output of that row, under its key.\<close>

lemma staged_markOutput_Out:
  assumes "primaryKeys tx"
    and "x0 \<in> set (output_addresses_accumulate tx)"
    and "oa_id x0 = rowID row" and "oa_address x0 = rowAddress row" and "oa_processed_out x0 = 0"
    and "u0 \<in> set (avm_outputs tx)" and "out_id u0 = rowID row"
  shows "staged f H (markOutput processTypeOut row tx) oa_processed_out k =
           staged f H tx oa_processed_out k +
           (if H (out_chain_id u0) (out_asset_id u0) (rowAddress row) = Inr k then f u0 else 0)"
    and "staged f H (markOutput processTypeOut row tx) oa_processed_in k =
           staged f H tx oa_processed_in k"
proof -
  let ?key = "\<lambda>x. (oa_id x, oa_address x)"
  let ?g = "\<lambda>x. (\<Sum>u\<leftarrow>avm_outputs tx.
             if out_id u = oa_id x \<and> H (out_chain_id u) (out_asset_id u) (oa_address x) = Inr k
             then f u else 0)"
  let ?h = "\<lambda>x. if oa_processed_out x = 1 then ?g x else 0"
  let ?upd = "\<lambda>x. x\<lparr>oa_processed_out := 1\<rparr>"
  from assms(1) have d: "distinct (map ?key (output_addresses_accumulate tx))"
    and o: "distinct (map out_id (avm_outputs tx))"
    by (simp_all add: primaryKeys_def)
  have m: "(\<lambda>x. if oa_id x = rowID row \<and> oa_address x = rowAddress row then ?upd x else x) =
           (\<lambda>x. if ?key x = ?key x0 then ?upd x else x)"
    using assms(3,4) by (auto simp: fun_eq_iff)
  have "staged f H (markOutput processTypeOut row tx) oa_processed_out k =
        (\<Sum>x\<leftarrow>output_addresses_accumulate tx. ?h (if ?key x = ?key x0 then ?upd x else x))"
    unfolding staged_def markOutput_def using assms(3,4) by (simp add: comp_def cong: if_cong)
  also have "\<dots> = (\<Sum>x\<leftarrow>output_addresses_accumulate tx. ?h x) - ?h x0 + ?h (?upd x0)"
    by (rule sum_update_one [OF d assms(2)])
  also have "?h x0 = 0" using assms(5) by simp
  also have "?h (?upd x0) =
      (\<Sum>u\<leftarrow>avm_outputs tx.
             if out_id u = out_id u0 \<and> H (out_chain_id u) (out_asset_id u) (rowAddress row) = Inr k
             then f u else 0)"
    using assms(3,4,7) by simp
  also have "\<dots> = (if H (out_chain_id u0) (out_asset_id u0) (rowAddress row) = Inr k then f u0 else 0)"
    by (rule sum_match [OF o assms(6)])
  finally show "staged f H (markOutput processTypeOut row tx) oa_processed_out k =
           staged f H tx oa_processed_out k +
           (if H (out_chain_id u0) (out_asset_id u0) (rowAddress row) = Inr k then f u0 else 0)"
    by (simp add: staged_def)
  show "staged f H (markOutput processTypeOut row tx) oa_processed_in k =
           staged f H tx oa_processed_in k"
    unfolding staged_def markOutput_def
    by (auto simp: comp_def intro!: arg_cong [where f = sum_list] map_cong)
qed

lemma staged_markOutput_In:
  assumes "primaryKeys tx"
    and "x0 \<in> set (output_addresses_accumulate tx)"
    and "oa_id x0 = rowID row" and "oa_address x0 = rowAddress row" and "oa_processed_in x0 = 0"
    and "u0 \<in> set (avm_outputs tx)" and "out_id u0 = rowID row"
  shows "staged f H (markOutput processTypeIn row tx) oa_processed_in k =
           staged f H tx oa_processed_in k +
           (if H (out_chain_id u0) (out_asset_id u0) (rowAddress row) = Inr k then f u0 else 0)"
    and "staged f H (markOutput processTypeIn row tx) oa_processed_out k =
           staged f H tx oa_processed_out k"
proof -
  let ?key = "\<lambda>x. (oa_id x, oa_address x)"
  let ?g = "\<lambda>x. (\<Sum>u\<leftarrow>avm_outputs tx.
             if out_id u = oa_id x \<and> H (out_chain_id u) (out_asset_id u) (oa_address x) = Inr k
             then f u else 0)"
  let ?h = "\<lambda>x. if oa_processed_in x = 1 then ?g x else 0"
  let ?upd = "\<lambda>x. x\<lparr>oa_processed_in := 1\<rparr>"
  from assms(1) have d: "distinct (map ?key (output_addresses_accumulate tx))"
    and o: "distinct (map out_id (avm_outputs tx))"
    by (simp_all add: primaryKeys_def)
  have m: "(\<lambda>x. if oa_id x = rowID row \<and> oa_address x = rowAddress row then ?upd x else x) =
           (\<lambda>x. if ?key x = ?key x0 then ?upd x else x)"
    using assms(3,4) by (auto simp: fun_eq_iff)
  have "staged f H (markOutput processTypeIn row tx) oa_processed_in k =
        (\<Sum>x\<leftarrow>output_addresses_accumulate tx. ?h (if ?key x = ?key x0 then ?upd x else x))"
    unfolding staged_def markOutput_def using assms(3,4) by (simp add: comp_def cong: if_cong)
  also have "\<dots> = (\<Sum>x\<leftarrow>output_addresses_accumulate tx. ?h x) - ?h x0 + ?h (?upd x0)"
    by (rule sum_update_one [OF d assms(2)])
  also have "?h x0 = 0" using assms(5) by simp
  also have "?h (?upd x0) =
      (\<Sum>u\<leftarrow>avm_outputs tx.
             if out_id u = out_id u0 \<and> H (out_chain_id u) (out_asset_id u) (rowAddress row) = Inr k
             then f u else 0)"
    using assms(3,4,7) by simp
  also have "\<dots> = (if H (out_chain_id u0) (out_asset_id u0) (rowAddress row) = Inr k then f u0 else 0)"
    by (rule sum_match [OF o assms(6)])
  finally show "staged f H (markOutput processTypeIn row tx) oa_processed_in k =
           staged f H tx oa_processed_in k +
           (if H (out_chain_id u0) (out_asset_id u0) (rowAddress row) = Inr k then f u0 else 0)"
    by (simp add: staged_def)
  show "staged f H (markOutput processTypeIn row tx) oa_processed_out k =
           staged f H tx oa_processed_out k"
    unfolding staged_def markOutput_def
    by (auto simp: comp_def intro!: arg_cong [where f = sum_list] map_cong)
qed


subsection \<open>One claimed output row\<close>

lemma seedRow_conservation:
  assumes "conservation H tx"
  shows "conservation H (seedRow b tx)"
proof (cases "ID b \<in> ID ` set (accumulate_balances tx)")
  case True
  with assms show ?thesis by (simp add: seedRow_def)
next
  case False
  have s: "staged f H (seedRow b tx) = staged f H tx" for f
    by (rule staged_cong) simp_all
  have c: "counted H (seedRow b tx) = counted H tx"
    by (rule counted_cong) simp
  from False assms show ?thesis
    unfolding conservation_def s c by (auto simp: seedRow_rows)
qed

lemma fold_seedRow_conservation:
  "conservation H tx \<Longrightarrow> conservation H (fold seedRow bs tx)"
  by (induction bs arbitrary: tx) (simp_all add: seedRow_conservation)

lemma seedRow_present: "ID b \<in> ID ` set (accumulate_balances (seedRow b tx))"
  by (auto simp: seedRow_rows)

lemma row_conservation_Out:
  assumes "primaryKeys tx" and "conservation H tx"
    and "ID b \<in> ID ` set (accumulate_balances tx)"
    and "x0 \<in> set (output_addresses_accumulate tx)"
    and "oa_id x0 = rowID row" and "oa_address x0 = rowAddress row" and "oa_processed_out x0 = 0"
    and "u0 \<in> set (avm_outputs tx)" and "out_id u0 = rowID row"
    and "H (out_chain_id u0) (out_asset_id u0) (rowAddress row) = Inr (ID b)"
    and "TotalReceived b = out_amount u0"
  shows "conservation H (markOutput processTypeOut row (updateBalance processTypeOut b tx))"
proof -
  let ?tx2 = "updateBalance processTypeOut b tx"
  let ?tx3 = "markOutput processTypeOut row ?tx2"
  have pk: "primaryKeys ?tx2" using assms(1) by (simp add: primaryKeys_def)
  note flip = staged_markOutput_Out [of ?tx2 x0 row u0, OF pk]
  have s: "staged f H ?tx2 = staged f H tx" for f
    by (rule staged_cong) simp_all
  have so: "staged f H ?tx3 oa_processed_out k =
      staged f H tx oa_processed_out k + (if Inr (ID b) = (Inr k :: error + string) then f u0 else 0)" for f k
    using flip(1) [of f H k] assms(4-10) by (simp add: s)
  have si: "staged f H ?tx3 oa_processed_in k = staged f H tx oa_processed_in k" for f k
    using flip(2) [of f H k] assms(4-10) by (simp add: s)
  have c: "counted H ?tx3 = counted H tx"
    by (rule counted_cong) simp
  have rows: "accumulate_balances ?tx3 =
      map (\<lambda>r. if ID r = ID b
                then r\<lparr>UtxoCount := UtxoCount r + 1, TotalReceived := TotalReceived r + TotalReceived b\<rparr>
                else r) (accumulate_balances tx)"
    by (simp add: updateBalance_def)
  have "map ID (accumulate_balances ?tx3) = map ID (accumulate_balances tx)"
    unfolding rows map_map by (rule map_cong) auto
  then have ids: "ID ` set (accumulate_balances ?tx3) = ID ` set (accumulate_balances tx)"
    by (metis set_map)
  show ?thesis
    unfolding conservation_def ids
  proof (intro conjI ballI allI impI)
    fix r assume "r \<in> set (accumulate_balances ?tx3)"
    then obtain r0 where r0: "r0 \<in> set (accumulate_balances tx)"
      and r: "r = (if ID r0 = ID b
                then r0\<lparr>UtxoCount := UtxoCount r0 + 1, TotalReceived := TotalReceived r0 + TotalReceived b\<rparr>
                else r0)"
      unfolding rows by auto
    from assms(2) r0 have e: "TotalReceived r0 = staged out_amount H tx oa_processed_out (ID r0)"
      "TotalSent r0 = staged out_amount H tx oa_processed_in (ID r0)"
      "UtxoCount r0 = staged (\<lambda>u. 1) H tx oa_processed_out (ID r0) -
                      staged (\<lambda>u. 1) H tx oa_processed_in (ID r0)"
      "TransactionCount r0 = counted H tx (ID r0)"
      by (simp_all add: conservation_def)
    show "TotalReceived r = staged out_amount H ?tx3 oa_processed_out (ID r)"
      unfolding so using e(1) assms(11) by (simp add: r)
    show "TotalSent r = staged out_amount H ?tx3 oa_processed_in (ID r)"
      unfolding si using e(2) by (simp add: r)
    show "UtxoCount r = staged (\<lambda>u. 1) H ?tx3 oa_processed_out (ID r) -
                      staged (\<lambda>u. 1) H ?tx3 oa_processed_in (ID r)"
      unfolding so si using e(3) by (simp add: r)
    show "TransactionCount r = counted H ?tx3 (ID r)"
      unfolding c using e(4) by (simp add: r)
  next
    fix k assume k: "k \<notin> ID ` set (accumulate_balances tx)"
    with assms(3) have n: "ID b \<noteq> k" by auto
    from assms(2) k have z: "staged out_amount H tx oa_processed_out k = 0"
      "staged out_amount H tx oa_processed_in k = 0"
      "staged (\<lambda>u. 1) H tx oa_processed_out k - staged (\<lambda>u. 1) H tx oa_processed_in k = 0"
      "counted H tx k = 0"
      by (simp_all add: conservation_def)
    show "staged out_amount H ?tx3 oa_processed_out k = 0"
      unfolding so using z(1) n by simp
    show "staged out_amount H ?tx3 oa_processed_in k = 0"
      unfolding si using z(2) by simp
    show "staged (\<lambda>u. 1) H ?tx3 oa_processed_out k - staged (\<lambda>u. 1) H ?tx3 oa_processed_in k = 0"
      unfolding so si using z(3) n by simp
    show "counted H ?tx3 k = 0"
      unfolding c using z(4) by simp
  qed
qed

lemma row_conservation_In:
  assumes "primaryKeys tx" and "conservation H tx"
    and "ID b \<in> ID ` set (accumulate_balances tx)"
    and "x0 \<in> set (output_addresses_accumulate tx)"
    and "oa_id x0 = rowID row" and "oa_address x0 = rowAddress row" and "oa_processed_in x0 = 0"
    and "u0 \<in> set (avm_outputs tx)" and "out_id u0 = rowID row"
    and "H (out_chain_id u0) (out_asset_id u0) (rowAddress row) = Inr (ID b)"
    and "TotalSent b = out_amount u0"
  shows "conservation H (markOutput processTypeIn row (updateBalance processTypeIn b tx))"
proof -
  let ?tx2 = "updateBalance processTypeIn b tx"
  let ?tx3 = "markOutput processTypeIn row ?tx2"
  have pk: "primaryKeys ?tx2" using assms(1) by (simp add: primaryKeys_def)
  note flip = staged_markOutput_In [of ?tx2 x0 row u0, OF pk]
  have s: "staged f H ?tx2 = staged f H tx" for f
    by (rule staged_cong) simp_all
  have si: "staged f H ?tx3 oa_processed_in k =
      staged f H tx oa_processed_in k + (if Inr (ID b) = (Inr k :: error + string) then f u0 else 0)" for f k
    using flip(1) [of f H k] assms(4-10) by (simp add: s)
  have so: "staged f H ?tx3 oa_processed_out k = staged f H tx oa_processed_out k" for f k
    using flip(2) [of f H k] assms(4-10) by (simp add: s)
  have c: "counted H ?tx3 = counted H tx"
    by (rule counted_cong) simp
  have rows: "accumulate_balances ?tx3 =
      map (\<lambda>r. if ID r = ID b
                then r\<lparr>UtxoCount := UtxoCount r - 1, TotalSent := TotalSent r + TotalSent b\<rparr>
                else r) (accumulate_balances tx)"
    by (simp add: updateBalance_def)
  have "map ID (accumulate_balances ?tx3) = map ID (accumulate_balances tx)"
    unfolding rows map_map by (rule map_cong) auto
  then have ids: "ID ` set (accumulate_balances ?tx3) = ID ` set (accumulate_balances tx)"
    by (metis set_map)
  show ?thesis
    unfolding conservation_def ids
  proof (intro conjI ballI allI impI)
    fix r assume "r \<in> set (accumulate_balances ?tx3)"
    then obtain r0 where r0: "r0 \<in> set (accumulate_balances tx)"
      and r: "r = (if ID r0 = ID b
                then r0\<lparr>UtxoCount := UtxoCount r0 - 1, TotalSent := TotalSent r0 + TotalSent b\<rparr>
                else r0)"
      unfolding rows by auto
    from assms(2) r0 have e: "TotalReceived r0 = staged out_amount H tx oa_processed_out (ID r0)"
      "TotalSent r0 = staged out_amount H tx oa_processed_in (ID r0)"
      "UtxoCount r0 = staged (\<lambda>u. 1) H tx oa_processed_out (ID r0) -
                      staged (\<lambda>u. 1) H tx oa_processed_in (ID r0)"
      "TransactionCount r0 = counted H tx (ID r0)"
      by (simp_all add: conservation_def)
    show "TotalReceived r = staged out_amount H ?tx3 oa_processed_out (ID r)"
      unfolding so using e(1) by (simp add: r)
    show "TotalSent r = staged out_amount H ?tx3 oa_processed_in (ID r)"
      unfolding si using e(2) assms(11) by (simp add: r)
    show "UtxoCount r = staged (\<lambda>u. 1) H ?tx3 oa_processed_out (ID r) -
                      staged (\<lambda>u. 1) H ?tx3 oa_processed_in (ID r)"
      unfolding so si using e(3) by (simp add: r)
    show "TransactionCount r = counted H ?tx3 (ID r)"
      unfolding c using e(4) by (simp add: r)
  next
    fix k assume k: "k \<notin> ID ` set (accumulate_balances tx)"
    with assms(3) have n: "ID b \<noteq> k" by auto
    from assms(2) k have z: "staged out_amount H tx oa_processed_out k = 0"
      "staged out_amount H tx oa_processed_in k = 0"
      "staged (\<lambda>u. 1) H tx oa_processed_out k - staged (\<lambda>u. 1) H tx oa_processed_in k = 0"
      "counted H tx k = 0"
      by (simp_all add: conservation_def)
    show "staged out_amount H ?tx3 oa_processed_out k = 0"
      unfolding so using z(1) by simp
    show "staged out_amount H ?tx3 oa_processed_in k = 0"
      unfolding si using z(2) n by simp
    show "staged (\<lambda>u. 1) H ?tx3 oa_processed_out k - staged (\<lambda>u. 1) H ?tx3 oa_processed_in k = 0"
      unfolding so si using z(3) n by simp
    show "counted H ?tx3 k = 0"
      unfolding c using z(4) by simp
  qed
qed

lemma primaryKeys_seedRow [simp]: "primaryKeys (seedRow b tx) = primaryKeys tx"
  by (simp add: primaryKeys_def)

lemma primaryKeys_updateBalance [simp]: "primaryKeys (updateBalance typ b tx) = primaryKeys tx"
  by (simp add: primaryKeys_def)

lemma markOutput_keys:
  "map (\<lambda>x. (oa_id x, oa_address x)) (output_addresses_accumulate (markOutput typ row tx)) =
   map (\<lambda>x. (oa_id x, oa_address x)) (output_addresses_accumulate tx)"
  unfolding markOutput_def by (cases "typ") (auto intro!: map_cong)

lemma primaryKeys_markOutput [simp]: "primaryKeys (markOutput typ row tx) = primaryKeys tx"
  by (simp add: primaryKeys_def markOutput_keys)

lemma markOutput_other_row:
  assumes "x \<in> set (output_addresses_accumulate tx)"
    and "\<not> (oa_id x = rowID row \<and> oa_address x = rowAddress row)"
  shows "x \<in> set (output_addresses_accumulate (markOutput typ row tx))"
  using assms unfolding markOutput_def by (auto simp: image_iff intro!: bexI [of _ x])

lemma row_conservation:
  assumes "primaryKeys tx" and "conservation H tx"
    and "x0 \<in> set (output_addresses_accumulate tx)"
    and "oa_id x0 = rowID row" and "oa_address x0 = rowAddress row" and "flagOf typ x0 = 0"
    and "u0 \<in> set (avm_outputs tx)" and "out_id u0 = rowID row"
    and "H (out_chain_id u0) (out_asset_id u0) (rowAddress row) = Inr (ID b)"
    and "TotalReceived b = out_amount u0" and "TotalSent b = out_amount u0"
  shows "conservation H (markOutput typ row (updateBalance typ b (seedRow b tx)))"
proof (cases "typ")
  case processTypeOut
  show ?thesis
    unfolding processTypeOut
    by (rule row_conservation_Out [where ?x0.0 = x0 and ?u0.0 = u0])
       (use assms processTypeOut in \<open>simp_all add: seedRow_conservation seedRow_present\<close>)
next
  case processTypeIn
  show ?thesis
    unfolding processTypeIn
    by (rule row_conservation_In [where ?x0.0 = x0 and ?u0.0 = u0])
       (use assms processTypeIn in \<open>simp_all add: seedRow_conservation seedRow_present\<close>)
qed

lemma outputRows_conservation:
  assumes "outputRows H typ rows [] tx = ([], Inr tx')"
    and "primaryKeys tx" and "conservation H tx" and "distinct rows"
    and "\<forall>row\<in>set rows.
           (\<exists>x\<in>set (output_addresses_accumulate tx).
              oa_id x = rowID row \<and> oa_address x = rowAddress row \<and> flagOf typ x = 0) \<and>
           (\<exists>u\<in>set (avm_outputs tx). out_id u = rowID row)"
  shows "primaryKeys tx' \<and> conservation H tx'"
  using assms
proof (induction rows arbitrary: tx)
  case Nil
  then show ?case by simp
next
  case (Cons row rows)
  from Cons.prems(4) have d: "distinct rows" "row \<notin> set rows" by simp_all
  from Cons.prems(5) obtain x0 u0 where
    x0: "x0 \<in> set (output_addresses_accumulate tx)" "oa_id x0 = rowID row"
      "oa_address x0 = rowAddress row" "flagOf typ x0 = 0"
    and u0: "u0 \<in> set (avm_outputs tx)" "out_id u0 = rowID row"
    by auto
  from Cons.prems(5) have rest: "\<forall>row\<in>set rows.
           (\<exists>x\<in>set (output_addresses_accumulate tx).
              oa_id x = rowID row \<and> oa_address x = rowAddress row \<and> flagOf typ x = 0) \<and>
           (\<exists>u\<in>set (avm_outputs tx). out_id u = rowID row)"
    by simp
  from outputRows_step [OF Cons.prems(1)] show ?case
  proof (elim disjE conjE exE)
    assume "outputRows H typ rows [] tx = ([], Inr tx')"
    from Cons.IH [OF this Cons.prems(2,3) d(1) rest] show ?thesis .
  next
    fix bs
    assume n: "selectBalances tx (rowID row) (rowAddress row) \<noteq> []"
      and k: "list_all2 (\<lambda>b b'. ComputeID H b = Inr b')
                (selectBalances tx (rowID row) (rowAddress row)) bs"
      and r: "outputRows H typ rows []
                (markOutput typ row (fold (updateBalance typ) bs (fold seedRow bs tx))) = ([], Inr tx')"
    let ?b0 = "\<lparr>ID = [], ChainID = out_chain_id u0, AssetID = out_asset_id u0,
                Address = rowAddress row, TransactionCount = 1, TotalReceived = out_amount u0,
                TotalSent = out_amount u0, UtxoCount = 0\<rparr>"
    from n selectBalances_unique [OF Cons.prems(2) u0, of "rowAddress row"]
    have sel: "selectBalances tx (rowID row) (rowAddress row) = [?b0]"
      by (simp split: if_splits)
    with k obtain b where bs: "bs = [b]" and b: "ComputeID H ?b0 = Inr b"
      by (auto simp: list_all2_Cons1)
    from b have b': "H (out_chain_id u0) (out_asset_id u0) (rowAddress row) = Inr (ID b)"
      "TotalReceived b = out_amount u0" "TotalSent b = out_amount u0"
      by (auto simp: ComputeID_def split: sum.splits)
    let ?tx1 = "markOutput typ row (updateBalance typ b (seedRow b tx))"
    have c1: "conservation H ?tx1"
      using Cons.prems(2,3) x0 u0 b' by (rule row_conservation)
    have p1: "primaryKeys ?tx1" using Cons.prems(2) by simp
    have rest1: "\<forall>row'\<in>set rows.
           (\<exists>x\<in>set (output_addresses_accumulate ?tx1).
              oa_id x = rowID row' \<and> oa_address x = rowAddress row' \<and> flagOf typ x = 0) \<and>
           (\<exists>u\<in>set (avm_outputs ?tx1). out_id u = rowID row')"
    proof
      fix row' assume m: "row' \<in> set rows"
      with d(2) have ne: "row' \<noteq> row" by auto
      from rest m obtain x u where
        x: "x \<in> set (output_addresses_accumulate tx)" "oa_id x = rowID row'"
          "oa_address x = rowAddress row'" "flagOf typ x = 0"
        and u: "u \<in> set (avm_outputs tx)" "out_id u = rowID row'"
        by blast
      from ne x(2,3) have "\<not> (oa_id x = rowID row \<and> oa_address x = rowAddress row)"
        by (cases row, cases row') auto
      with x(1) have "x \<in> set (output_addresses_accumulate ?tx1)"
        by (intro markOutput_other_row) simp_all
      with x u show "(\<exists>x\<in>set (output_addresses_accumulate ?tx1).
              oa_id x = rowID row' \<and> oa_address x = rowAddress row' \<and> flagOf typ x = 0) \<and>
           (\<exists>u\<in>set (avm_outputs ?tx1). out_id u = rowID row')"
        by auto
    qed
    from r bs have "outputRows H typ rows [] ?tx1 = ([], Inr tx')" by simp
    from Cons.IH [OF this p1 c1 d(1) rest1] show ?thesis .
  qed
qed

subsection \<open>The output pass\<close>

lemma claimOutputs_distinct:
  assumes "primaryKeys db"
  shows "distinct (claimOutputs typ db)"
proof -
  let ?P = "\<lambda>x. flagOf typ x = 0 \<and> oa_id x \<in> out_id ` set (avm_outputs db) \<and>
                (typ = processTypeIn \<longrightarrow> oa_id x \<in> set (avm_outputs_redeeming db))"
  let ?g = "\<lambda>(i, a). \<lparr>rowID = i, rowAddress = a\<rparr>"
  from assms have "distinct (map (\<lambda>x. (oa_id x, oa_address x)) (output_addresses_accumulate db))"
    by (simp add: primaryKeys_def)
  then have "distinct (map (\<lambda>x. (oa_id x, oa_address x)) (filter ?P (output_addresses_accumulate db)))"
    by (rule distinct_map_filter)
  moreover have "inj ?g" by (auto simp: inj_on_def)
  ultimately have "distinct (map ?g (map (\<lambda>x. (oa_id x, oa_address x))
                      (filter ?P (output_addresses_accumulate db))))"
    by (subst distinct_map) (auto intro: inj_on_subset)
  then have "distinct (map (\<lambda>x. \<lparr>rowID = oa_id x, rowAddress = oa_address x\<rparr>)
                      (filter ?P (output_addresses_accumulate db)))"
    by (simp add: comp_def)
  then show ?thesis
    unfolding claimOutputs_keys [OF assms] by (rule distinct_take)
qed

lemma claimOutputs_rows:
  assumes "primaryKeys db" and "row \<in> set (claimOutputs typ db)"
  shows "(\<exists>x\<in>set (output_addresses_accumulate db).
              oa_id x = rowID row \<and> oa_address x = rowAddress row \<and> flagOf typ x = 0) \<and>
         (\<exists>u\<in>set (avm_outputs db). out_id u = rowID row)"
proof -
  from assms(2) obtain x where x: "x \<in> set (output_addresses_accumulate db)"
    "row = \<lparr>rowID = oa_id x, rowAddress = oa_address x\<rparr>" "flagOf typ x = 0"
    "oa_id x \<in> out_id ` set (avm_outputs db)"
    unfolding claimOutputs_keys [OF assms(1)] by (auto dest!: in_set_takeD)
  from x(4) obtain u where "u \<in> set (avm_outputs db)" "out_id u = oa_id x" by auto
  with x show ?thesis by auto
qed

lemma processOutputs_conservation:
  assumes "processOutputs H typ s = (s', r)"
    and "primaryKeys (tables s)" and "conservation H (tables s)"
  shows "primaryKeys (tables s') \<and> conservation H (tables s')"
proof (cases r)
  case (Inl e)
  with assms processOutputs_error [of H "typ" s s' e] show ?thesis by simp
next
  case (Inr n)
  show ?thesis
  proof (cases "n = 0")
    case True
    with Inr assms processOutputs_empty [of H "typ" s s'] show ?thesis by simp
  next
    case False
    with Inr assms(1) processOutputs_commit [of H "typ" s s' n]
    have "outputRows H typ (claimOutputs typ (tables s)) [] (tables s) = ([], Inr (tables s'))"
      by simp
    then show ?thesis
      using assms(2,3) claimOutputs_distinct [OF assms(2)]
    proof (rule outputRows_conservation)
      show "\<forall>row\<in>set (claimOutputs typ (tables s)).
       (\<exists>x\<in>set (output_addresses_accumulate (tables s)).
           oa_id x = rowID row \<and> oa_address x = rowAddress row \<and> flagOf typ x = 0) \<and>
       (\<exists>u\<in>set (avm_outputs (tables s)). out_id u = rowID row)"
        using claimOutputs_rows [OF assms(2)] by blast
    qed
  qed
qed

subsection \<open>The transaction pass\<close>

lemma fold_updateTransactionCount_full:
  "accumulate_balances (fold updateTransactionCount bs tx) =
   map (\<lambda>r. r\<lparr>TransactionCount := TransactionCount r + int (length (filter (\<lambda>b. ID b = ID r) bs))\<rparr>)
     (accumulate_balances tx)"
proof (induction bs arbitrary: tx)
  case Nil
  show ?case by (simp add: map_idI)
next
  case (Cons b bs)
  show ?case
    unfolding fold_Cons comp_apply Cons.IH
    by (auto simp: updateTransactionCount_def)
qed

lemma length_filter_disj:
  assumes "\<forall>x\<in>set xs. \<not> (A x \<and> B x)"
  shows "length (filter (\<lambda>x. A x \<or> B x) xs) = length (filter A xs) + length (filter B xs)"
  using assms by (induction xs) auto

lemma length_filter_member:
  assumes "distinct xs" and "distinct ys" and "set ys \<subseteq> set xs"
  shows "length (filter (\<lambda>x. x \<in> set ys \<and> K x) xs) = length (filter K ys)"
proof -
  have "{x. x \<in> set ys \<and> K x} \<inter> set xs = {x. K x} \<inter> set ys"
    using assms(3) by auto
  then show ?thesis
    by (simp add: distinct_length_filter [OF assms(1)] distinct_length_filter [OF assms(2)])
qed

lemma counted_markTransactions:
  assumes "distinct (map ot_id (output_txs_accumulate tx))" and "distinct rows"
    and "set rows \<subseteq> set (output_txs_accumulate tx)"
    and "\<forall>row\<in>set rows. ot_processed row = 0"
  shows "counted H (fold markTransaction rows tx) k =
           counted H tx k +
           int (length (filter (\<lambda>row. H (ot_chain_id row) (ot_asset_id row) (ot_address row) = Inr k) rows))"
proof -
  let ?xs = "output_txs_accumulate tx"
  let ?K = "\<lambda>r. H (ot_chain_id r) (ot_asset_id r) (ot_address r) = Inr k"
  let ?g = "\<lambda>r. if ot_id r \<in> ot_id ` set rows then r\<lparr>ot_processed := 1\<rparr> else r"
  from assms(1) have inj: "inj_on ot_id (set ?xs)" and dx: "distinct ?xs"
    by (simp_all add: distinct_map)
  have mem: "ot_id r \<in> ot_id ` set rows \<longleftrightarrow> r \<in> set rows" if "r \<in> set ?xs" for r
    using that assms(3) inj by (auto simp: inj_on_def)
  have "filter (\<lambda>r. ot_processed r = 1 \<and> ?K r) (map ?g ?xs) =
        map ?g (filter (\<lambda>r. (r \<in> set rows \<and> ?K r) \<or> (ot_processed r = 1 \<and> ?K r)) ?xs)"
    unfolding filter_map comp_def
    by (intro arg_cong [where f = "map ?g"] filter_cong refl) (auto simp: mem)
  then have "counted H (fold markTransaction rows tx) k =
      int (length (filter (\<lambda>r. (r \<in> set rows \<and> ?K r) \<or> (ot_processed r = 1 \<and> ?K r)) ?xs))"
    by (simp add: counted_def fold_markTransaction_rows)
  also have "\<dots> = int (length (filter (\<lambda>r. r \<in> set rows \<and> ?K r) ?xs)) +
                   int (length (filter (\<lambda>r. ot_processed r = 1 \<and> ?K r) ?xs))"
    using assms(4) by (subst length_filter_disj) auto
  also have "length (filter (\<lambda>r. r \<in> set rows \<and> ?K r) ?xs) = length (filter ?K rows)"
    using dx assms(2,3) by (rule length_filter_member)
  finally show ?thesis by (simp add: counted_def)
qed

lemma fold_markTransaction_ids:
  "map ot_id (output_txs_accumulate (fold markTransaction rows tx)) =
   map ot_id (output_txs_accumulate tx)"
  unfolding fold_markTransaction_rows map_map by (rule map_cong) auto

lemma claimTransactions_rows:
  assumes "primaryKeys db"
  shows "distinct (claimTransactions db)"
    and "set (claimTransactions db) \<subseteq> set (output_txs_accumulate db)"
    and "\<forall>row\<in>set (claimTransactions db). ot_processed row = 0"
proof -
  from assms have "distinct (output_txs_accumulate db)"
    by (auto simp: primaryKeys_def distinct_map)
  then show "distinct (claimTransactions db)"
    by (simp add: claimTransactions_def)
  show "set (claimTransactions db) \<subseteq> set (output_txs_accumulate db)"
    by (auto simp: claimTransactions_def dest!: in_set_takeD)
  show "\<forall>row\<in>set (claimTransactions db). ot_processed row = 0"
    by (auto simp: claimTransactions_def dest!: in_set_takeD)
qed

lemma processTransactions_conservation:
  assumes "processTransactions H s = (s', r)"
    and "primaryKeys (tables s)" and "conservation H (tables s)"
  shows "primaryKeys (tables s') \<and> conservation H (tables s')"
proof (cases r)
  case (Inl e)
  with assms processTransactions_error [of H s s' e] show ?thesis by simp
next
  case (Inr n)
  show ?thesis
  proof (cases "n = 0")
    case True
    with Inr assms processTransactions_empty [of H s s'] show ?thesis by simp
  next
    case False
    let ?rows = "claimTransactions (tables s)"
    let ?key = "\<lambda>row. H (ot_chain_id row) (ot_asset_id row) (ot_address row)"
    from False Inr assms(1) processTransactions_effect [of H s s' n] obtain bs where
      k: "list_all2 (\<lambda>row b. ?key row = Inr (ID b)) ?rows bs"
      and t: "tables s' = fold markTransaction ?rows
                (fold updateTransactionCount bs (fold seedRow bs (tables s)))"
      by auto
    let ?tx1 = "fold seedRow bs (tables s)"
    let ?tx2 = "fold updateTransactionCount bs ?tx1"
    let ?cnt = "\<lambda>k. int (length (filter (\<lambda>row. ?key row = Inr k) ?rows))"
    have cnt: "int (length (filter (\<lambda>b. ID b = k) bs)) = ?cnt k" for k
      using keyed_count [OF k] by simp
    have c1: "conservation H ?tx1"
      using assms(3) by (rule fold_seedRow_conservation)
    from fold_seedRow_rows [of bs "tables s"]
    have present: "ID ` set bs \<subseteq> ID ` set (accumulate_balances ?tx1)"
      by auto
    have rows: "accumulate_balances (tables s') =
        map (\<lambda>r. r\<lparr>TransactionCount := TransactionCount r + ?cnt (ID r)\<rparr>) (accumulate_balances ?tx1)"
      unfolding t by (simp add: fold_updateTransactionCount_full cnt)
    have "map ID (accumulate_balances (tables s')) = map ID (accumulate_balances ?tx1)"
      unfolding rows map_map by (rule map_cong) auto
    then have ids: "ID ` set (accumulate_balances (tables s')) = ID ` set (accumulate_balances ?tx1)"
      by (metis set_map)
    have st: "staged f H (tables s') = staged f H ?tx1" for f
      unfolding t by (rule staged_cong) simp_all
    have d: "distinct (map ot_id (output_txs_accumulate ?tx2))"
      using assms(2) by (simp add: primaryKeys_def)
    have co: "counted H (tables s') k = counted H ?tx1 k + ?cnt k" for k
    proof -
      have "counted H (tables s') k = counted H ?tx2 k + ?cnt k"
        unfolding t using d claimTransactions_rows [OF assms(2)]
        by (intro counted_markTransactions) simp_all
      moreover have "counted H ?tx2 = counted H ?tx1"
        by (rule counted_cong) simp
      ultimately show ?thesis by simp
    qed
    have "conservation H (tables s')"
      unfolding conservation_def ids st co
    proof (intro conjI ballI allI impI)
      fix r assume "r \<in> set (accumulate_balances (tables s'))"
      then obtain r0 where r0: "r0 \<in> set (accumulate_balances ?tx1)"
        and r: "r = r0\<lparr>TransactionCount := TransactionCount r0 + ?cnt (ID r0)\<rparr>"
        unfolding rows by auto
      from c1 r0 have e: "TotalReceived r0 = staged out_amount H ?tx1 oa_processed_out (ID r0)"
        "TotalSent r0 = staged out_amount H ?tx1 oa_processed_in (ID r0)"
        "UtxoCount r0 = staged (\<lambda>u. 1) H ?tx1 oa_processed_out (ID r0) -
                        staged (\<lambda>u. 1) H ?tx1 oa_processed_in (ID r0)"
        "TransactionCount r0 = counted H ?tx1 (ID r0)"
        by (simp_all add: conservation_def)
      show "TotalReceived r = staged out_amount H ?tx1 oa_processed_out (ID r)"
        using e(1) by (simp add: r)
      show "TotalSent r = staged out_amount H ?tx1 oa_processed_in (ID r)"
        using e(2) by (simp add: r)
      show "UtxoCount r = staged (\<lambda>u. 1) H ?tx1 oa_processed_out (ID r) -
                        staged (\<lambda>u. 1) H ?tx1 oa_processed_in (ID r)"
        using e(3) by (simp add: r)
      show "TransactionCount r = counted H ?tx1 (ID r) + ?cnt (ID r)"
        using e(4) by (simp add: r)
    next
      fix k assume k: "k \<notin> ID ` set (accumulate_balances ?tx1)"
      with c1 have z: "staged out_amount H ?tx1 oa_processed_out k = 0"
        "staged out_amount H ?tx1 oa_processed_in k = 0"
        "staged (\<lambda>u. 1) H ?tx1 oa_processed_out k - staged (\<lambda>u. 1) H ?tx1 oa_processed_in k = 0"
        "counted H ?tx1 k = 0"
        by (simp_all add: conservation_def)
      from k present have "filter (\<lambda>b. ID b = k) bs = []"
        by (auto simp: filter_empty_conv)
      with cnt [of k] have "?cnt k = 0" by simp
      with z show "staged out_amount H ?tx1 oa_processed_out k = 0"
        "staged out_amount H ?tx1 oa_processed_in k = 0"
        "staged (\<lambda>u. 1) H ?tx1 oa_processed_out k - staged (\<lambda>u. 1) H ?tx1 oa_processed_in k = 0"
        "counted H ?tx1 k + ?cnt k = 0"
        by simp_all
    qed
    moreover have "primaryKeys (tables s')"
      using assms(2) unfolding t by (simp add: primaryKeys_def fold_markTransaction_ids)
    ultimately show ?thesis by blast
  qed
qed

text \<open>Before anything is processed the aggregate table is empty and conservation holds.\<close>

lemma sum_list_all_zero:
  "\<forall>x\<in>set xs. g x = (0::int) \<Longrightarrow> (\<Sum>x\<leftarrow>xs. g x) = 0"
  by (induction xs) auto

lemma fresh_conservation:
  assumes "\<forall>x\<in>set (output_addresses_accumulate db). oa_processed_out x = 0 \<and> oa_processed_in x = 0"
    and "\<forall>r\<in>set (output_txs_accumulate db). ot_processed r = 0"
    and "accumulate_balances db = []"
  shows "conservation H db"
proof -
  have "staged f H db oa_processed_out k = 0" "staged f H db oa_processed_in k = 0" for f k
    unfolding staged_def using assms(1)
    by (auto intro!: sum_list_all_zero)
  moreover have "counted H db k = 0" for k
    using assms(2) by (auto simp: counted_def filter_empty_conv)
  ultimately show ?thesis
    using assms(3) by (simp add: conservation_def)
qed

lemma conservation_cong:
  assumes "output_addresses_accumulate a = output_addresses_accumulate b"
    and "output_txs_accumulate a = output_txs_accumulate b"
    and "avm_outputs a = avm_outputs b"
    and "accumulate_balances a = accumulate_balances b"
  shows "conservation H a = conservation H b"
  unfolding conservation_def staged_cong [OF assms(1,3)] counted_cong [OF assms(2)] assms(4) ..

section \<open>Atomicity of a pass\<close>

subsection \<open>The flags a committed pass has set\<close>

lemma outputRows_flags:
  assumes "outputRows H typ rows [] tx = ([], Inr tx')"
  shows "output_addresses_accumulate tx' =
     map (\<lambda>x. if \<lparr>rowID = oa_id x, rowAddress = oa_address x\<rparr> \<in> set rows \<and>
                  selectBalances tx (oa_id x) (oa_address x) \<noteq> []
               then (case typ of processTypeOut \<Rightarrow> x\<lparr>oa_processed_out := 1\<rparr>
                               | processTypeIn \<Rightarrow> x\<lparr>oa_processed_in := 1\<rparr>)
               else x)
       (output_addresses_accumulate tx)"
  using assms
proof (induction rows arbitrary: tx)
  case Nil
  then show ?case by (simp add: map_idI)
next
  case (Cons row rows)
  from outputRows_step [OF Cons.prems] show ?case
  proof (elim disjE conjE exE)
    assume e: "selectBalances tx (rowID row) (rowAddress row) = []"
      and r: "outputRows H typ rows [] tx = ([], Inr tx')"
    show ?thesis
      unfolding Cons.IH [OF r]
      by (rule map_cong) (use e in auto)
  next
    fix bs
    assume n: "selectBalances tx (rowID row) (rowAddress row) \<noteq> []"
      and r: "outputRows H typ rows []
                (markOutput typ row (fold (updateBalance typ) bs (fold seedRow bs tx))) = ([], Inr tx')"
    let ?tx1 = "markOutput typ row (fold (updateBalance typ) bs (fold seedRow bs tx))"
    have s: "selectBalances ?tx1 = selectBalances tx"
      by (rule selectBalances_cong) simp_all
    have m: "output_addresses_accumulate ?tx1 =
        map (\<lambda>r. if oa_id r = rowID row \<and> oa_address r = rowAddress row then
                     (case typ of
                        processTypeOut \<Rightarrow> r\<lparr>oa_processed_out := 1\<rparr>
                      | processTypeIn \<Rightarrow> r\<lparr>oa_processed_in := 1\<rparr>)
                   else r) (output_addresses_accumulate tx)"
      by (simp add: markOutput_def)
    show ?thesis
      unfolding Cons.IH [OF r] s m map_map
      by (rule map_cong) (use n in \<open>auto split: processType.splits\<close>)
  qed
qed

lemma processOutputs_flags:
  assumes "processOutputs H typ s = (s', Inr n)"
  shows "output_addresses_accumulate (tables s') =
     map (\<lambda>x. if \<lparr>rowID = oa_id x, rowAddress = oa_address x\<rparr> \<in> set (claimOutputs typ (tables s)) \<and>
                  selectBalances (tables s) (oa_id x) (oa_address x) \<noteq> []
               then (case typ of processTypeOut \<Rightarrow> x\<lparr>oa_processed_out := 1\<rparr>
                               | processTypeIn \<Rightarrow> x\<lparr>oa_processed_in := 1\<rparr>)
               else x)
       (output_addresses_accumulate (tables s))"
proof (cases "n = 0")
  case True
  with assms processOutputs_empty [of H "typ" s s'] processOutputs_count [of H "typ" s s' n]
  show ?thesis by (simp add: map_idI)
next
  case False
  with assms processOutputs_commit [of H "typ" s s' n]
  have "outputRows H typ (claimOutputs typ (tables s)) [] (tables s) = ([], Inr (tables s'))"
    by simp
  then show ?thesis by (rule outputRows_flags)
qed

lemma processTransactions_flags:
  assumes "processTransactions H s = (s', Inr n)"
  shows "output_txs_accumulate (tables s') =
     map (\<lambda>r. if ot_id r \<in> ot_id ` set (claimTransactions (tables s))
               then r\<lparr>ot_processed := 1\<rparr> else r)
       (output_txs_accumulate (tables s))"
proof (cases "n = 0")
  case True
  with assms processTransactions_empty [of H s s'] processTransactions_count [of H s s' n]
  show ?thesis by (simp add: map_idI)
next
  case False
  with assms processTransactions_effect [of H s s' n] obtain bs where
    "tables s' = fold markTransaction (claimTransactions (tables s))
                   (fold updateTransactionCount bs (fold seedRow bs (tables s)))"
    by auto
  then show ?thesis by (simp add: fold_markTransaction_rows)
qed

subsection \<open>The counter of a key\<close>

lemma find_ID_map:
  assumes "\<And>r. ID (g r) = ID r"
  shows "find (\<lambda>r. ID r = k) (map g xs) = map_option g (find (\<lambda>r. ID r = k) xs)"
  by (induction xs) (simp_all add: assms)

lemma find_ID_append:
  "find (\<lambda>r. ID r = k) (xs @ ys) =
     (case find (\<lambda>r. ID r = k) xs of None \<Rightarrow> find (\<lambda>r. ID r = k) ys | Some r \<Rightarrow> Some r)"
  by (induction xs) simp_all

lemma find_ID_None: "find (\<lambda>r. ID r = k) xs = None \<longleftrightarrow> k \<notin> ID ` set xs"
  by (auto simp: find_None_iff)

lemma find_ID_Some: "find (\<lambda>r. ID r = k) xs = Some r \<Longrightarrow> ID r = k"
  by (auto simp: find_Some_iff)

lemma counterOf_cong:
  "accumulate_balances a = accumulate_balances b \<Longrightarrow> counterOf f a = counterOf f b"
  by (simp add: counterOf_def fun_eq_iff)

lemma counterOf_rows:
  assumes "accumulate_balances b = map g (accumulate_balances a)" and "\<And>r. ID (g r) = ID r"
    and "\<And>r. ID r = k \<Longrightarrow> r \<in> set (accumulate_balances a) \<Longrightarrow> f (g r) = f r + d"
    and "k \<notin> ID ` set (accumulate_balances a) \<Longrightarrow> d = 0"
  shows "counterOf f b k = counterOf f a k + d"
proof (cases "find (\<lambda>r. ID r = k) (accumulate_balances a)")
  case None
  with assms(4) have "d = 0" by (simp add: find_ID_None)
  with None show ?thesis
    by (simp add: counterOf_def assms(1) find_ID_map [of g, OF assms(2)])
next
  case (Some r)
  then have "ID r = k" "r \<in> set (accumulate_balances a)"
    by (auto simp: find_Some_iff in_set_conv_nth)
  with Some assms(3) show ?thesis
    by (simp add: counterOf_def assms(1) find_ID_map [of g, OF assms(2)])
qed

lemma counterOf_seedRow:
  assumes "\<And>r. f (r\<lparr>TransactionCount := 0, TotalReceived := 0, TotalSent := 0, UtxoCount := 0\<rparr>) = 0"
  shows "counterOf f (seedRow b tx) k = counterOf f tx k"
proof (cases "find (\<lambda>r. ID r = k) (accumulate_balances tx)")
  case None
  then have "k \<notin> ID ` set (accumulate_balances tx)"
    by (simp add: find_ID_None)
  with None show ?thesis
    by (auto simp: counterOf_def seedRow_rows find_ID_append assms)
next
  case (Some r)
  then show ?thesis
    by (simp add: counterOf_def seedRow_rows find_ID_append)
qed

lemma counterOf_fold_seedRow:
  assumes "\<And>r. f (r\<lparr>TransactionCount := 0, TotalReceived := 0, TotalSent := 0, UtxoCount := 0\<rparr>) = 0"
  shows "counterOf f (fold seedRow bs tx) k = counterOf f tx k"
  by (induction bs arbitrary: tx) (simp_all add: counterOf_seedRow [of f, OF assms])

subsection \<open>Counters and flags in step\<close>

lemma inStep_refl [simp]: "inStep H a a"
  by (simp add: inStep_def)

lemma inStep_trans: "inStep H a b \<Longrightarrow> inStep H b c \<Longrightarrow> inStep H a c"
  unfolding inStep_def
proof (intro allI)
  fix k
  assume a: "\<forall>k. counterOf TotalReceived b k - counterOf TotalReceived a k =
            staged out_amount H b oa_processed_out k - staged out_amount H a oa_processed_out k \<and>
          counterOf TotalSent b k - counterOf TotalSent a k =
            staged out_amount H b oa_processed_in k - staged out_amount H a oa_processed_in k \<and>
          counterOf UtxoCount b k - counterOf UtxoCount a k =
            (staged (\<lambda>u. 1) H b oa_processed_out k - staged (\<lambda>u. 1) H a oa_processed_out k) -
            (staged (\<lambda>u. 1) H b oa_processed_in k - staged (\<lambda>u. 1) H a oa_processed_in k) \<and>
          counterOf TransactionCount b k - counterOf TransactionCount a k =
            counted H b k - counted H a k"
    and b: "\<forall>k. counterOf TotalReceived c k - counterOf TotalReceived b k =
            staged out_amount H c oa_processed_out k - staged out_amount H b oa_processed_out k \<and>
          counterOf TotalSent c k - counterOf TotalSent b k =
            staged out_amount H c oa_processed_in k - staged out_amount H b oa_processed_in k \<and>
          counterOf UtxoCount c k - counterOf UtxoCount b k =
            (staged (\<lambda>u. 1) H c oa_processed_out k - staged (\<lambda>u. 1) H b oa_processed_out k) -
            (staged (\<lambda>u. 1) H c oa_processed_in k - staged (\<lambda>u. 1) H b oa_processed_in k) \<and>
          counterOf TransactionCount c k - counterOf TransactionCount b k =
            counted H c k - counted H b k"
  from a [rule_format, of k] b [rule_format, of k]
  show "counterOf TotalReceived c k - counterOf TotalReceived a k =
            staged out_amount H c oa_processed_out k - staged out_amount H a oa_processed_out k \<and>
          counterOf TotalSent c k - counterOf TotalSent a k =
            staged out_amount H c oa_processed_in k - staged out_amount H a oa_processed_in k \<and>
          counterOf UtxoCount c k - counterOf UtxoCount a k =
            (staged (\<lambda>u. 1) H c oa_processed_out k - staged (\<lambda>u. 1) H a oa_processed_out k) -
            (staged (\<lambda>u. 1) H c oa_processed_in k - staged (\<lambda>u. 1) H a oa_processed_in k) \<and>
          counterOf TransactionCount c k - counterOf TransactionCount a k =
            counted H c k - counted H a k"
    by linarith
qed


lemma counterOf_same:
  assumes "accumulate_balances b = map g (accumulate_balances a)" and "\<And>r. ID (g r) = ID r"
    and "\<And>r. f (g r) = f r"
  shows "counterOf f b k = counterOf f a k"
  using counterOf_rows [of b g a k f 0] assms by simp

lemma counterOf_updateBalance_Out:
  assumes "ID b \<in> ID ` set (accumulate_balances tx)"
  shows "counterOf TotalReceived (updateBalance processTypeOut b tx) k =
           counterOf TotalReceived tx k + (if k = ID b then TotalReceived b else 0)"
    and "counterOf UtxoCount (updateBalance processTypeOut b tx) k =
           counterOf UtxoCount tx k + (if k = ID b then 1 else 0)"
    and "counterOf TotalSent (updateBalance processTypeOut b tx) k = counterOf TotalSent tx k"
    and "counterOf TransactionCount (updateBalance processTypeOut b tx) k =
           counterOf TransactionCount tx k"
proof -
  let ?g = "\<lambda>r. if ID r = ID b
                then r\<lparr>UtxoCount := UtxoCount r + 1, TotalReceived := TotalReceived r + TotalReceived b\<rparr>
                else r"
  have g: "accumulate_balances (updateBalance processTypeOut b tx) = map ?g (accumulate_balances tx)"
    by (simp add: updateBalance_def)
  show "counterOf TotalReceived (updateBalance processTypeOut b tx) k =
           counterOf TotalReceived tx k + (if k = ID b then TotalReceived b else 0)"
    by (rule counterOf_rows [OF g]) (use assms in auto)
  show "counterOf UtxoCount (updateBalance processTypeOut b tx) k =
           counterOf UtxoCount tx k + (if k = ID b then 1 else 0)"
    by (rule counterOf_rows [OF g]) (use assms in auto)
  show "counterOf TotalSent (updateBalance processTypeOut b tx) k = counterOf TotalSent tx k"
    by (rule counterOf_same [OF g]) auto
  show "counterOf TransactionCount (updateBalance processTypeOut b tx) k =
           counterOf TransactionCount tx k"
    by (rule counterOf_same [OF g]) auto
qed

lemma counterOf_updateBalance_In:
  assumes "ID b \<in> ID ` set (accumulate_balances tx)"
  shows "counterOf TotalSent (updateBalance processTypeIn b tx) k =
           counterOf TotalSent tx k + (if k = ID b then TotalSent b else 0)"
    and "counterOf UtxoCount (updateBalance processTypeIn b tx) k =
           counterOf UtxoCount tx k + (if k = ID b then - 1 else 0)"
    and "counterOf TotalReceived (updateBalance processTypeIn b tx) k = counterOf TotalReceived tx k"
    and "counterOf TransactionCount (updateBalance processTypeIn b tx) k =
           counterOf TransactionCount tx k"
proof -
  let ?g = "\<lambda>r. if ID r = ID b
                then r\<lparr>UtxoCount := UtxoCount r - 1, TotalSent := TotalSent r + TotalSent b\<rparr>
                else r"
  have g: "accumulate_balances (updateBalance processTypeIn b tx) = map ?g (accumulate_balances tx)"
    by (simp add: updateBalance_def)
  show "counterOf TotalSent (updateBalance processTypeIn b tx) k =
           counterOf TotalSent tx k + (if k = ID b then TotalSent b else 0)"
    by (rule counterOf_rows [OF g]) (use assms in auto)
  show "counterOf UtxoCount (updateBalance processTypeIn b tx) k =
           counterOf UtxoCount tx k + (if k = ID b then - 1 else 0)"
    by (rule counterOf_rows [OF g]) (use assms in auto)
  show "counterOf TotalReceived (updateBalance processTypeIn b tx) k = counterOf TotalReceived tx k"
    by (rule counterOf_same [OF g]) auto
  show "counterOf TransactionCount (updateBalance processTypeIn b tx) k =
           counterOf TransactionCount tx k"
    by (rule counterOf_same [OF g]) auto
qed

text \<open>One claimed row: its flag and the counters of its key change together.\<close>

lemma row_inStep_Out:
  assumes "primaryKeys tx"
    and "x0 \<in> set (output_addresses_accumulate tx)"
    and "oa_id x0 = rowID row" and "oa_address x0 = rowAddress row" and "oa_processed_out x0 = 0"
    and "u0 \<in> set (avm_outputs tx)" and "out_id u0 = rowID row"
    and "H (out_chain_id u0) (out_asset_id u0) (rowAddress row) = Inr (ID b)"
    and "TotalReceived b = out_amount u0"
  shows "inStep H tx (markOutput processTypeOut row (updateBalance processTypeOut b (seedRow b tx)))"
proof -
  let ?tx1 = "seedRow b tx"
  let ?tx2 = "updateBalance processTypeOut b ?tx1"
  let ?tx3 = "markOutput processTypeOut row ?tx2"
  have pk: "primaryKeys ?tx2" using assms(1) by simp
  note flip = staged_markOutput_Out [of ?tx2 x0 row u0, OF pk]
  have s: "staged f H ?tx2 = staged f H tx" for f
    by (rule staged_cong) simp_all
  have so: "staged f H ?tx3 oa_processed_out k =
      staged f H tx oa_processed_out k + (if k = ID b then f u0 else 0)" for f k
    using flip(1) [of f H k] assms(2-8) by (auto simp: s)
  have si: "staged f H ?tx3 oa_processed_in k = staged f H tx oa_processed_in k" for f k
    using flip(2) [of f H k] assms(2-8) by (simp add: s)
  have c: "counted H ?tx3 = counted H tx"
    by (rule counted_cong) simp
  have m: "counterOf f ?tx3 = counterOf f ?tx2" for f
    by (rule counterOf_cong) simp
  note u = counterOf_updateBalance_Out [of b ?tx1, OF seedRow_present]
  show ?thesis
    unfolding inStep_def so si c m u
    by (simp add: counterOf_seedRow assms(9))
qed

lemma row_inStep_In:
  assumes "primaryKeys tx"
    and "x0 \<in> set (output_addresses_accumulate tx)"
    and "oa_id x0 = rowID row" and "oa_address x0 = rowAddress row" and "oa_processed_in x0 = 0"
    and "u0 \<in> set (avm_outputs tx)" and "out_id u0 = rowID row"
    and "H (out_chain_id u0) (out_asset_id u0) (rowAddress row) = Inr (ID b)"
    and "TotalSent b = out_amount u0"
  shows "inStep H tx (markOutput processTypeIn row (updateBalance processTypeIn b (seedRow b tx)))"
proof -
  let ?tx1 = "seedRow b tx"
  let ?tx2 = "updateBalance processTypeIn b ?tx1"
  let ?tx3 = "markOutput processTypeIn row ?tx2"
  have pk: "primaryKeys ?tx2" using assms(1) by simp
  note flip = staged_markOutput_In [of ?tx2 x0 row u0, OF pk]
  have s: "staged f H ?tx2 = staged f H tx" for f
    by (rule staged_cong) simp_all
  have si: "staged f H ?tx3 oa_processed_in k =
      staged f H tx oa_processed_in k + (if k = ID b then f u0 else 0)" for f k
    using flip(1) [of f H k] assms(2-8) by (auto simp: s)
  have so: "staged f H ?tx3 oa_processed_out k = staged f H tx oa_processed_out k" for f k
    using flip(2) [of f H k] assms(2-8) by (simp add: s)
  have c: "counted H ?tx3 = counted H tx"
    by (rule counted_cong) simp
  have m: "counterOf f ?tx3 = counterOf f ?tx2" for f
    by (rule counterOf_cong) simp
  note u = counterOf_updateBalance_In [of b ?tx1, OF seedRow_present]
  show ?thesis
    unfolding inStep_def so si c m u
    by (simp add: counterOf_seedRow assms(9))
qed

lemma row_inStep:
  assumes "primaryKeys tx"
    and "x0 \<in> set (output_addresses_accumulate tx)"
    and "oa_id x0 = rowID row" and "oa_address x0 = rowAddress row" and "flagOf typ x0 = 0"
    and "u0 \<in> set (avm_outputs tx)" and "out_id u0 = rowID row"
    and "H (out_chain_id u0) (out_asset_id u0) (rowAddress row) = Inr (ID b)"
    and "TotalReceived b = out_amount u0" and "TotalSent b = out_amount u0"
  shows "inStep H tx (markOutput typ row (updateBalance typ b (seedRow b tx)))"
proof (cases "typ")
  case processTypeOut
  show ?thesis
    unfolding processTypeOut
    by (rule row_inStep_Out [where ?x0.0 = x0 and ?u0.0 = u0])
       (use assms processTypeOut in simp_all)
next
  case processTypeIn
  show ?thesis
    unfolding processTypeIn
    by (rule row_inStep_In [where ?x0.0 = x0 and ?u0.0 = u0])
       (use assms processTypeIn in simp_all)
qed

lemma outputRows_inStep:
  assumes "outputRows H typ rows [] tx = ([], Inr tx')"
    and "primaryKeys tx" and "distinct rows"
    and "\<forall>row\<in>set rows.
           (\<exists>x\<in>set (output_addresses_accumulate tx).
              oa_id x = rowID row \<and> oa_address x = rowAddress row \<and> flagOf typ x = 0) \<and>
           (\<exists>u\<in>set (avm_outputs tx). out_id u = rowID row)"
  shows "inStep H tx tx'"
  using assms
proof (induction rows arbitrary: tx)
  case Nil
  then show ?case by simp
next
  case (Cons row rows)
  from Cons.prems(3) have d: "distinct rows" "row \<notin> set rows" by simp_all
  from Cons.prems(4) obtain x0 u0 where
    x0: "x0 \<in> set (output_addresses_accumulate tx)" "oa_id x0 = rowID row"
      "oa_address x0 = rowAddress row" "flagOf typ x0 = 0"
    and u0: "u0 \<in> set (avm_outputs tx)" "out_id u0 = rowID row"
    by auto
  from Cons.prems(4) have rest: "\<forall>row\<in>set rows.
           (\<exists>x\<in>set (output_addresses_accumulate tx).
              oa_id x = rowID row \<and> oa_address x = rowAddress row \<and> flagOf typ x = 0) \<and>
           (\<exists>u\<in>set (avm_outputs tx). out_id u = rowID row)"
    by simp
  from outputRows_step [OF Cons.prems(1)] show ?case
  proof (elim disjE conjE exE)
    assume "outputRows H typ rows [] tx = ([], Inr tx')"
    from Cons.IH [OF this Cons.prems(2) d(1) rest] show ?thesis .
  next
    fix bs
    assume n: "selectBalances tx (rowID row) (rowAddress row) \<noteq> []"
      and k: "list_all2 (\<lambda>b b'. ComputeID H b = Inr b')
                (selectBalances tx (rowID row) (rowAddress row)) bs"
      and r: "outputRows H typ rows []
                (markOutput typ row (fold (updateBalance typ) bs (fold seedRow bs tx))) = ([], Inr tx')"
    let ?b0 = "\<lparr>ID = [], ChainID = out_chain_id u0, AssetID = out_asset_id u0,
                Address = rowAddress row, TransactionCount = 1, TotalReceived = out_amount u0,
                TotalSent = out_amount u0, UtxoCount = 0\<rparr>"
    from n selectBalances_unique [OF Cons.prems(2) u0, of "rowAddress row"]
    have sel: "selectBalances tx (rowID row) (rowAddress row) = [?b0]"
      by (simp split: if_splits)
    with k obtain b where bs: "bs = [b]" and b: "ComputeID H ?b0 = Inr b"
      by (auto simp: list_all2_Cons1)
    from b have b': "H (out_chain_id u0) (out_asset_id u0) (rowAddress row) = Inr (ID b)"
      "TotalReceived b = out_amount u0" "TotalSent b = out_amount u0"
      by (auto simp: ComputeID_def split: sum.splits)
    let ?tx1 = "markOutput typ row (updateBalance typ b (seedRow b tx))"
    have c1: "inStep H tx ?tx1"
      using Cons.prems(2) x0 u0 b' by (rule row_inStep)
    have p1: "primaryKeys ?tx1" using Cons.prems(2) by simp
    have rest1: "\<forall>row'\<in>set rows.
           (\<exists>x\<in>set (output_addresses_accumulate ?tx1).
              oa_id x = rowID row' \<and> oa_address x = rowAddress row' \<and> flagOf typ x = 0) \<and>
           (\<exists>u\<in>set (avm_outputs ?tx1). out_id u = rowID row')"
    proof
      fix row' assume m: "row' \<in> set rows"
      with d(2) have ne: "row' \<noteq> row" by auto
      from rest m obtain x u where
        x: "x \<in> set (output_addresses_accumulate tx)" "oa_id x = rowID row'"
          "oa_address x = rowAddress row'" "flagOf typ x = 0"
        and u: "u \<in> set (avm_outputs tx)" "out_id u = rowID row'"
        by blast
      from ne x(2,3) have "\<not> (oa_id x = rowID row \<and> oa_address x = rowAddress row)"
        by (cases row, cases row') auto
      with x(1) have "x \<in> set (output_addresses_accumulate ?tx1)"
        by (intro markOutput_other_row) simp_all
      with x u show "(\<exists>x\<in>set (output_addresses_accumulate ?tx1).
              oa_id x = rowID row' \<and> oa_address x = rowAddress row' \<and> flagOf typ x = 0) \<and>
           (\<exists>u\<in>set (avm_outputs ?tx1). out_id u = rowID row')"
        by auto
    qed
    from r bs have "outputRows H typ rows [] ?tx1 = ([], Inr tx')" by simp
    from Cons.IH [OF this p1 d(1) rest1] have "inStep H ?tx1 tx'" .
    with c1 show ?thesis by (rule inStep_trans)
  qed
qed

lemma processOutputs_inStep:
  assumes "processOutputs H typ s = (s', r)" and "primaryKeys (tables s)"
  shows "inStep H (tables s) (tables s')"
proof (cases r)
  case (Inl e)
  with assms processOutputs_error [of H "typ" s s' e] show ?thesis by simp
next
  case (Inr n)
  show ?thesis
  proof (cases "n = 0")
    case True
    with Inr assms processOutputs_empty [of H "typ" s s'] show ?thesis by simp
  next
    case False
    with Inr assms(1) processOutputs_commit [of H "typ" s s' n]
    have "outputRows H typ (claimOutputs typ (tables s)) [] (tables s) = ([], Inr (tables s'))"
      by simp
    then show ?thesis
      using assms(2) claimOutputs_distinct [OF assms(2)]
    proof (rule outputRows_inStep)
      show "\<forall>row\<in>set (claimOutputs typ (tables s)).
       (\<exists>x\<in>set (output_addresses_accumulate (tables s)).
           oa_id x = rowID row \<and> oa_address x = rowAddress row \<and> flagOf typ x = 0) \<and>
       (\<exists>u\<in>set (avm_outputs (tables s)). out_id u = rowID row)"
        using claimOutputs_rows [OF assms(2)] by blast
    qed
  qed
qed

lemma processTransactions_inStep:
  assumes "processTransactions H s = (s', r)" and "primaryKeys (tables s)"
  shows "inStep H (tables s) (tables s')"
proof (cases r)
  case (Inl e)
  with assms processTransactions_error [of H s s' e] show ?thesis by simp
next
  case (Inr n)
  show ?thesis
  proof (cases "n = 0")
    case True
    with Inr assms processTransactions_empty [of H s s'] show ?thesis by simp
  next
    case False
    let ?rows = "claimTransactions (tables s)"
    let ?key = "\<lambda>row. H (ot_chain_id row) (ot_asset_id row) (ot_address row)"
    from False Inr assms(1) processTransactions_effect [of H s s' n] obtain bs where
      k: "list_all2 (\<lambda>row b. ?key row = Inr (ID b)) ?rows bs"
      and t: "tables s' = fold markTransaction ?rows
                (fold updateTransactionCount bs (fold seedRow bs (tables s)))"
      by auto
    let ?tx1 = "fold seedRow bs (tables s)"
    let ?tx2 = "fold updateTransactionCount bs ?tx1"
    let ?cnt = "\<lambda>k. int (length (filter (\<lambda>row. ?key row = Inr k) ?rows))"
    let ?g = "\<lambda>r. r\<lparr>TransactionCount := TransactionCount r + ?cnt (ID r)\<rparr>"
    have cnt: "int (length (filter (\<lambda>b. ID b = k) bs)) = ?cnt k" for k
      using keyed_count [OF k] by simp
    from fold_seedRow_rows [of bs "tables s"]
    have present: "ID ` set bs \<subseteq> ID ` set (accumulate_balances ?tx1)"
      by auto
    have rows: "accumulate_balances (tables s') = map ?g (accumulate_balances ?tx1)"
      unfolding t by (simp add: fold_updateTransactionCount_full cnt)
    have st: "staged f H (tables s') = staged f H (tables s)" for f
      unfolding t by (rule staged_cong) simp_all
    have d: "distinct (map ot_id (output_txs_accumulate ?tx2))"
      using assms(2) by (simp add: primaryKeys_def)
    have co: "counted H (tables s') k = counted H (tables s) k + ?cnt k" for k
    proof -
      have "counted H (tables s') k = counted H ?tx2 k + ?cnt k"
        unfolding t using d claimTransactions_rows [OF assms(2)]
        by (intro counted_markTransactions) simp_all
      moreover have "counted H ?tx2 = counted H (tables s)"
        by (rule counted_cong) simp
      ultimately show ?thesis by simp
    qed
    have tc: "counterOf TransactionCount (tables s') k =
        counterOf TransactionCount (tables s) k + ?cnt k" for k
    proof -
      have "counterOf TransactionCount (tables s') k = counterOf TransactionCount ?tx1 k + ?cnt k"
      proof (rule counterOf_rows [OF rows])
        assume "k \<notin> ID ` set (accumulate_balances ?tx1)"
        with present have "filter (\<lambda>b. ID b = k) bs = []"
          by (auto simp: filter_empty_conv)
        with cnt [of k] show "?cnt k = 0" by simp
      qed auto
      then show ?thesis by (simp add: counterOf_fold_seedRow)
    qed
    have other: "counterOf f (tables s') k = counterOf f (tables s) k"
      if "\<And>r v. f (r\<lparr>TransactionCount := v\<rparr>) = f r"
        "\<And>r. f (r\<lparr>TransactionCount := 0, TotalReceived := 0, TotalSent := 0, UtxoCount := 0\<rparr>) = 0"
      for f k
    proof -
      have "counterOf f (tables s') k = counterOf f ?tx1 k"
        by (rule counterOf_same [OF rows]) (simp_all add: that(1))
      then show ?thesis by (simp add: counterOf_fold_seedRow [of f, OF that(2)])
    qed
    show ?thesis
      unfolding inStep_def st co tc by (simp add: other)
  qed
qed


text \<open>
  C6. A pass that returns an error leaves every table as it was and commits nothing: the
  flag flips and counter updates made in the working copy are rolled back. A pass returns a
  count only if every balance key of the batch could be computed, so a failing key
  computation makes the pass fail and roll back. When the count is positive, the tables
  after the pass are the working copy at the end of the batch, published by one commit.
  What that commit publishes is every flag flip together with the counter updates it
  induced:
  \<^item> after the output pass, the flag of the direction is 1 in exactly the staging rows that
    had it at 1 or were claimed with a non-empty aggregation, and after the transaction
    pass \<open>processed\<close> is 1 in exactly the rows that had it at 1 or have the id of a claimed
    row;
  \<^item> when the tables have their primary keys, then for every balance key each counter
    (\<open>total_received\<close>, \<open>total_sent\<close>, \<open>utxo_count\<close>, \<open>transaction_count\<close>) has changed by
    exactly what the staging rows whose flag went to 1 contribute to it (\<open>inStep\<close>),
    whatever the pass returned; in particular conservation (I4), if it held before the
    pass, holds after it.
\<close>

theorem C6_pass_is_atomic:
  "(processOutputs H typ s = (s', Inl e) \<longrightarrow> tables s' = tables s \<and> commits s' = commits s) \<and>
   (processTransactions H s = (s', Inl e) \<longrightarrow> tables s' = tables s \<and> commits s' = commits s) \<and>
   (processOutputs H typ s = (s', Inr n) \<longrightarrow>
      n = length (claimOutputs typ (tables s)) \<and>
      (\<forall>row\<in>set (claimOutputs typ (tables s)).
         \<forall>b\<in>set (selectBalances (tables s) (rowID row) (rowAddress row)).
           \<exists>k. H (ChainID b) (AssetID b) (Address b) = Inr k) \<and>
      (if n = 0 then tables s' = tables s \<and> commits s' = commits s
       else outputRows H typ (claimOutputs typ (tables s)) [] (tables s) = ([], Inr (tables s'))
            \<and> commits s' = commits s + 1) \<and>
      output_addresses_accumulate (tables s') =
        map (\<lambda>x. if \<lparr>rowID = oa_id x, rowAddress = oa_address x\<rparr> \<in> set (claimOutputs typ (tables s)) \<and>
                     selectBalances (tables s) (oa_id x) (oa_address x) \<noteq> []
                  then (case typ of processTypeOut \<Rightarrow> x\<lparr>oa_processed_out := 1\<rparr>
                                  | processTypeIn \<Rightarrow> x\<lparr>oa_processed_in := 1\<rparr>)
                  else x)
          (output_addresses_accumulate (tables s))) \<and>
   (processTransactions H s = (s', Inr n) \<longrightarrow>
      n = length (claimTransactions (tables s)) \<and>
      (\<forall>row\<in>set (claimTransactions (tables s)).
         \<exists>k. H (ot_chain_id row) (ot_asset_id row) (ot_address row) = Inr k) \<and>
      (if n = 0 then tables s' = tables s \<and> commits s' = commits s
       else (\<exists>tx2 bs tx4.
               seedTransactions H (claimTransactions (tables s)) [] (tables s) = ([], Inr (tx2, bs))
             \<and> countTransactions bs [] tx2 = ([], Inr tx4)
             \<and> markTransactions (claimTransactions (tables s)) [] tx4 = ([], Inr (tables s')))
            \<and> commits s' = commits s + 1) \<and>
      output_txs_accumulate (tables s') =
        map (\<lambda>r. if ot_id r \<in> ot_id ` set (claimTransactions (tables s))
                  then r\<lparr>ot_processed := 1\<rparr> else r)
          (output_txs_accumulate (tables s))) \<and>
   (primaryKeys (tables s) \<and>
    (processOutputs H typ s = (s', r) \<or> processTransactions H s = (s', r)) \<longrightarrow>
      inStep H (tables s) (tables s') \<and>
      (conservation H (tables s) \<longrightarrow> conservation H (tables s')))"
proof (intro conjI impI)
  assume "processOutputs H typ s = (s', Inl e)"
  then show "tables s' = tables s" "commits s' = commits s"
    by (simp_all add: processOutputs_error)
next
  assume "processTransactions H s = (s', Inl e)"
  then show "tables s' = tables s" "commits s' = commits s"
    by (simp_all add: processTransactions_error)
next
  assume a: "processOutputs H typ s = (s', Inr n)"
  then show n: "n = length (claimOutputs typ (tables s))"
    by (rule processOutputs_count)
  show "if n = 0 then tables s' = tables s \<and> commits s' = commits s
        else outputRows H typ (claimOutputs typ (tables s)) [] (tables s) = ([], Inr (tables s'))
            \<and> commits s' = commits s + 1"
    using processOutputs_empty [of H "typ" s s'] processOutputs_commit [of H "typ" s s' n] a
    by (cases "n = 0") auto
  show "\<forall>row\<in>set (claimOutputs typ (tables s)).
         \<forall>b\<in>set (selectBalances (tables s) (rowID row) (rowAddress row)).
           \<exists>k. H (ChainID b) (AssetID b) (Address b) = Inr k"
  proof (cases "n = 0")
    case True
    with n show ?thesis by simp
  next
    case False
    with processOutputs_commit [OF a] show ?thesis
      by (auto dest!: outputRows_keys)
  qed
  from a show "output_addresses_accumulate (tables s') =
        map (\<lambda>x. if \<lparr>rowID = oa_id x, rowAddress = oa_address x\<rparr> \<in> set (claimOutputs typ (tables s)) \<and>
                     selectBalances (tables s) (oa_id x) (oa_address x) \<noteq> []
                  then (case typ of processTypeOut \<Rightarrow> x\<lparr>oa_processed_out := 1\<rparr>
                                  | processTypeIn \<Rightarrow> x\<lparr>oa_processed_in := 1\<rparr>)
                  else x)
          (output_addresses_accumulate (tables s))"
    by (rule processOutputs_flags)
next
  assume a: "processTransactions H s = (s', Inr n)"
  then show n: "n = length (claimTransactions (tables s))"
    by (rule processTransactions_count)
  show "if n = 0 then tables s' = tables s \<and> commits s' = commits s
        else (\<exists>tx2 bs tx4.
               seedTransactions H (claimTransactions (tables s)) [] (tables s) = ([], Inr (tx2, bs))
             \<and> countTransactions bs [] tx2 = ([], Inr tx4)
             \<and> markTransactions (claimTransactions (tables s)) [] tx4 = ([], Inr (tables s')))
            \<and> commits s' = commits s + 1"
    using processTransactions_empty [of H s s'] processTransactions_commit [of H s s' n] a
    by (cases "n = 0") auto
  show "\<forall>row\<in>set (claimTransactions (tables s)).
         \<exists>k. H (ot_chain_id row) (ot_asset_id row) (ot_address row) = Inr k"
  proof (cases "n = 0")
    case True
    with n show ?thesis by simp
  next
    case False
    with processTransactions_commit [OF a] show ?thesis
      by (auto dest!: seedTransactions_keys)
  qed
  from a show "output_txs_accumulate (tables s') =
        map (\<lambda>r. if ot_id r \<in> ot_id ` set (claimTransactions (tables s))
                  then r\<lparr>ot_processed := 1\<rparr> else r)
          (output_txs_accumulate (tables s))"
    by (rule processTransactions_flags)
next
  assume a: "primaryKeys (tables s) \<and>
    (processOutputs H typ s = (s', r) \<or> processTransactions H s = (s', r))"
  then show "inStep H (tables s) (tables s')"
    using processOutputs_inStep [of H "typ" s s' r] processTransactions_inStep [of H s s' r]
    by blast
  assume "conservation H (tables s)"
  with a show "conservation H (tables s')"
    using processOutputs_conservation [of H "typ" s s' r]
      processTransactions_conservation [of H s s' r]
    by blast
qed

theorem C6_pass_is_atomic_witness:
  "snd (processOutputs sampleHash processTypeOut (freshSession scenarioBadKey [])) =
     Inl ''bad address'' \<and>
   tables (fst (processOutputs sampleHash processTypeOut (freshSession scenarioBadKey []))) =
     scenarioBadKey \<and>
   snd (processTransactions sampleHash
          (freshSession scenarioOne (replicate 12 None @ [Some ''Deadlock found'']))) =
     Inl ''Deadlock found'' \<and>
   tables (fst (processTransactions sampleHash
          (freshSession scenarioOne (replicate 12 None @ [Some ''Deadlock found''])))) =
     scenarioOne \<and>
   snd (processOutputs sampleHash processTypeOut (freshSession scenarioOne [])) = Inr 1 \<and>
   commits (fst (processOutputs sampleHash processTypeOut (freshSession scenarioOne []))) = 1 \<and>
   output_addresses_accumulate
     (tables (fst (processOutputs sampleHash processTypeOut (freshSession scenarioOne [])))) =
     [\<lparr>oa_id = ''X'', oa_address = ''A'', oa_processed_out = 1, oa_processed_in = 0\<rparr>] \<and>
   accumulate_balances
     (tables (fst (processOutputs sampleHash processTypeOut (freshSession scenarioOne [])))) =
     [\<lparr>ID = ''C:S:A'', ChainID = ''C'', AssetID = ''S'', Address = ''A'',
       TransactionCount = 0, TotalReceived = 10, TotalSent = 0, UtxoCount = 1\<rparr>] \<and>
   primaryKeys scenarioOne \<and>
   inStep sampleHash scenarioOne
     (tables (fst (processOutputs sampleHash processTypeOut (freshSession scenarioOne [])))) \<and>
   conservation sampleHash scenarioOne \<and>
   conservation sampleHash
     (tables (fst (processOutputs sampleHash processTypeOut (freshSession scenarioOne [])))) \<and>
   snd (processTransactions sampleHash (freshSession scenarioOne [])) = Inr 3 \<and>
   commits (fst (processTransactions sampleHash (freshSession scenarioOne []))) = 1 \<and>
   map ot_processed (output_txs_accumulate
     (tables (fst (processTransactions sampleHash (freshSession scenarioOne []))))) = [1, 1, 1] \<and>
   accumulate_balances
     (tables (fst (processTransactions sampleHash (freshSession scenarioOne [])))) =
     [\<lparr>ID = ''C:S:A'', ChainID = ''C'', AssetID = ''S'', Address = ''A'',
       TransactionCount = 3, TotalReceived = 0, TotalSent = 0, UtxoCount = 0\<rparr>] \<and>
   inStep sampleHash scenarioOne
     (tables (fst (processTransactions sampleHash (freshSession scenarioOne [])))) \<and>
   snd (processOutputs sampleHash processTypeIn (freshSession scenarioTwo [])) = Inr 1 \<and>
   output_addresses_accumulate
     (tables (fst (processOutputs sampleHash processTypeIn (freshSession scenarioTwo [])))) =
     [\<lparr>oa_id = ''X'', oa_address = ''A'', oa_processed_out = 1, oa_processed_in = 1\<rparr>] \<and>
   accumulate_balances
     (tables (fst (processOutputs sampleHash processTypeIn (freshSession scenarioTwo [])))) =
     [\<lparr>ID = ''C:S:A'', ChainID = ''C'', AssetID = ''S'', Address = ''A'',
       TransactionCount = 3, TotalReceived = 10, TotalSent = 10, UtxoCount = 0\<rparr>] \<and>
   primaryKeys scenarioTwo \<and>
   inStep sampleHash scenarioTwo
     (tables (fst (processOutputs sampleHash processTypeIn (freshSession scenarioTwo []))))"
proof -
  let ?bad = "freshSession scenarioBadKey []"
  let ?dead = "freshSession scenarioOne (replicate 12 None @ [Some ''Deadlock found''])"
  let ?one = "freshSession scenarioOne []"
  let ?two = "freshSession scenarioTwo []"
  let ?o1 = "fst (processOutputs sampleHash processTypeOut ?one)"
  let ?t1 = "fst (processTransactions sampleHash ?one)"
  let ?i2 = "fst (processOutputs sampleHash processTypeIn ?two)"
  note atomic = C6_pass_is_atomic
  have a: "snd (processOutputs sampleHash processTypeOut ?bad) = Inl ''bad address''"
    by code_simp
  have b: "snd (processTransactions sampleHash ?dead) = Inl ''Deadlock found''"
    by code_simp
  have c: "snd (processOutputs sampleHash processTypeOut ?one) = Inr 1"
    by code_simp
  have d: "snd (processTransactions sampleHash ?one) = Inr 3"
    by code_simp
  have i: "snd (processOutputs sampleHash processTypeIn ?two) = Inr 1"
    by code_simp
  have t: "tables ?bad = scenarioBadKey" "tables ?dead = scenarioOne" "tables ?one = scenarioOne"
    "tables ?two = scenarioTwo" "commits ?one = 0"
    by (simp_all add: freshSession_def)
  have p1: "primaryKeys scenarioOne"
    by (simp add: primaryKeys_def scenarioOne_def)
  have p2: "primaryKeys scenarioTwo"
    by (simp add: primaryKeys_def scenarioTwo_def)
  have k1: "conservation sampleHash scenarioOne"
    by (rule fresh_conservation) (simp_all add: scenarioOne_def)
  from a have ra: "processOutputs sampleHash processTypeOut ?bad =
      (fst (processOutputs sampleHash processTypeOut ?bad), Inl ''bad address'')"
    by (metis prod.collapse)
  from b have rb: "processTransactions sampleHash ?dead =
      (fst (processTransactions sampleHash ?dead), Inl ''Deadlock found'')"
    by (metis prod.collapse)
  from c have rc: "processOutputs sampleHash processTypeOut ?one = (?o1, Inr 1)"
    by (metis prod.collapse)
  from d have rd: "processTransactions sampleHash ?one = (?t1, Inr 3)"
    by (metis prod.collapse)
  from i have ri: "processOutputs sampleHash processTypeIn ?two = (?i2, Inr 1)"
    by (metis prod.collapse)
  from atomic [of sampleHash processTypeOut ?bad _ "''bad address''",
      THEN conjunct1] ra t
  have a': "tables (fst (processOutputs sampleHash processTypeOut ?bad)) = scenarioBadKey"
    by simp
  from atomic [where H = sampleHash and s = ?dead and e = "''Deadlock found''",
      THEN conjunct2, THEN conjunct1] rb t
  have b': "tables (fst (processTransactions sampleHash ?dead)) = scenarioOne"
    by simp
  note oc = atomic [of sampleHash processTypeOut ?one ?o1 _ 1 "Inr 1", THEN conjunct2, THEN conjunct2]
  note o3 = oc [THEN conjunct1, THEN mp, OF rc, THEN conjunct2, THEN conjunct2]
  from o3 [THEN conjunct1] t
  have c': "commits ?o1 = 1"
    by simp
  have "map (\<lambda>x. if \<lparr>rowID = oa_id x, rowAddress = oa_address x\<rparr>
                       \<in> set (claimOutputs processTypeOut scenarioOne) \<and>
                     selectBalances scenarioOne (oa_id x) (oa_address x) \<noteq> []
                  then (case processTypeOut of processTypeOut \<Rightarrow> x\<lparr>oa_processed_out := 1\<rparr>
                                             | processTypeIn \<Rightarrow> x\<lparr>oa_processed_in := 1\<rparr>)
                  else x)
          (output_addresses_accumulate scenarioOne) =
        [\<lparr>oa_id = ''X'', oa_address = ''A'', oa_processed_out = 1, oa_processed_in = 0\<rparr>]"
    by code_simp
  with o3 [THEN conjunct2, unfolded t(3)]
  have c2: "output_addresses_accumulate (tables ?o1) =
     [\<lparr>oa_id = ''X'', oa_address = ''A'', oa_processed_out = 1, oa_processed_in = 0\<rparr>]"
    by (rule trans)
  have c3: "accumulate_balances (tables ?o1) =
     [\<lparr>ID = ''C:S:A'', ChainID = ''C'', AssetID = ''S'', Address = ''A'',
       TransactionCount = 0, TotalReceived = 10, TotalSent = 0, UtxoCount = 1\<rparr>]"
    by code_simp
  from oc [THEN conjunct2, THEN conjunct2] rc t p1 k1
  have c4: "inStep sampleHash scenarioOne (tables ?o1)"
    and c5: "conservation sampleHash (tables ?o1)"
    by simp_all
  note tc = atomic [where H = sampleHash and s = ?one and s' = ?t1 and n = 3 and r = "Inr 3",
      THEN conjunct2, THEN conjunct2, THEN conjunct2]
  note t3 = tc [THEN conjunct1, THEN mp, OF rd, THEN conjunct2, THEN conjunct2]
  from t3 [THEN conjunct1] t
  have d': "commits ?t1 = 1"
    by simp
  have "map ot_processed
          (map (\<lambda>r. if ot_id r \<in> ot_id ` set (claimTransactions scenarioOne)
                     then r\<lparr>ot_processed := 1\<rparr> else r)
             (output_txs_accumulate scenarioOne)) = [1, 1, 1]"
    by code_simp
  with t3 [THEN conjunct2] t
  have d2: "map ot_processed (output_txs_accumulate (tables ?t1)) = [1, 1, 1]"
    by simp
  have d3: "accumulate_balances (tables ?t1) =
     [\<lparr>ID = ''C:S:A'', ChainID = ''C'', AssetID = ''S'', Address = ''A'',
       TransactionCount = 3, TotalReceived = 0, TotalSent = 0, UtxoCount = 0\<rparr>]"
    by code_simp
  from tc [THEN conjunct2] rd t p1
  have d4: "inStep sampleHash scenarioOne (tables ?t1)"
    by simp
  have i2: "output_addresses_accumulate (tables ?i2) =
     [\<lparr>oa_id = ''X'', oa_address = ''A'', oa_processed_out = 1, oa_processed_in = 1\<rparr>]"
    by code_simp
  have i3: "accumulate_balances (tables ?i2) =
     [\<lparr>ID = ''C:S:A'', ChainID = ''C'', AssetID = ''S'', Address = ''A'',
       TransactionCount = 3, TotalReceived = 10, TotalSent = 10, UtxoCount = 0\<rparr>]"
    by code_simp
  from atomic [of sampleHash processTypeIn ?two ?i2 _ _ "Inr 1", THEN conjunct2, THEN conjunct2, THEN conjunct2, THEN conjunct2] ri t p2
  have i4: "inStep sampleHash scenarioTwo (tables ?i2)"
    by simp
  from a a' b b' c c' c2 c3 p1 c4 k1 c5 d d' d2 d3 d4 i i2 i3 p2 i4 show ?thesis
    by blast
qed

section \<open>Facts about the loops\<close>

subsection \<open>The inner loop\<close>

lemmas passLoop_induct = passLoop.raw_induct [rotated, consumes 1, case_names step]

lemmas sweeps_induct = sweeps.raw_induct [rotated, consumes 1, case_names step]

lemma passLoop_error:
  "pass s = (s', Inl e) \<Longrightarrow> passLoop pass icnt s = Some (s', Inl e)"
  by (subst passLoop.simps) simp

lemma passLoop_small:
  "pass s = (s', Inr cnt) \<Longrightarrow> cnt < RowLintValue \<Longrightarrow>
     passLoop pass icnt s = Some (s', Inr (if 0 < cnt then 0 else icnt))"
  by (subst passLoop.simps) simp


lemma passLoop_invariant:
  assumes "passLoop pass icnt s = Some (s', r)" and "Q s"
    and "\<And>s s' r. Q s \<Longrightarrow> pass s = (s', r) \<Longrightarrow> Q s'"
  shows "Q s'"
proof -
  have "passLoop p icnt s = Some y \<Longrightarrow> p = pass \<longrightarrow> Q s \<longrightarrow> Q (fst y)" for p icnt s y
  proof (induct rule: passLoop_induct)
    case (step loop p icnt s y)
    note 1 = step
    show ?case
    proof (intro impI)
      assume p: "p = pass" and q: "Q s"
      obtain s1 r1 where s1: "pass s = (s1, r1)" by (cases "pass s")
      with q have q1: "Q s1" by (rule assms(3))
      show "Q (fst y)"
      proof (cases r1)
        case (Inl e)
        with 1(2) p s1 q1 show ?thesis by auto
      next
        case (Inr cnt)
        show ?thesis
        proof (cases "cnt < RowLintValue")
          case True
          with 1(2) p s1 q1 Inr show ?thesis by (auto simp: Let_def)
        next
          case False
          with 1(2) p s1 Inr have "loop pass (if 0 < cnt then 0 else icnt) s1 = Some y"
            by (auto simp: Let_def)
          from 1(1) [OF this] q1 show ?thesis by simp
        qed
      qed
    qed
  qed
  from this [OF assms(1)] assms(2) show ?thesis by simp
qed



subsection \<open>The outer loop\<close>

lemma sweeps_done: "10 \<le> icnt \<Longrightarrow> sweeps H icnt s = Some (s, None)"
  by (subst sweeps.simps) simp

lemma sweeps_invariant:
  assumes "sweeps H icnt s = Some (s', r)" and "Q s"
    and "\<And>typ s s' r. Q s \<Longrightarrow> processOutputs H typ s = (s', r) \<Longrightarrow> Q s'"
    and "\<And>s s' r. Q s \<Longrightarrow> processTransactions H s = (s', r) \<Longrightarrow> Q s'"
  shows "Q s'"
proof -
  have "sweeps h icnt s = Some y \<Longrightarrow> h = H \<longrightarrow> Q s \<longrightarrow> Q (fst y)" for h icnt s y
  proof (induct rule: sweeps_induct)
    case (step loop h icnt s y)
    note 1 = step
    show ?case
    proof (intro impI)
      assume h: "h = H" and q: "Q s"
      show "Q (fst y)"
      proof (cases "icnt < 10")
        case False
        with 1(2) q show ?thesis by auto
      next
        case True
        with 1(2) h obtain s1 r1 where a: "passLoop (processOutputs H processTypeOut) icnt s = Some (s1, r1)"
          by (auto split: option.splits)
        from passLoop_invariant [of _ _ _ _ _ Q, OF a q] assms(3) have q1: "Q s1" by blast
        show ?thesis
        proof (cases r1)
          case (Inl e)
          with 1(2) True h a q1 show ?thesis by auto
        next
          case (Inr icnt1)
          with 1(2) True h a obtain s2 r2 where
            b: "passLoop (processOutputs H processTypeIn) icnt1 s1 = Some (s2, r2)"
            by (auto split: option.splits)
          from passLoop_invariant [of _ _ _ _ _ Q, OF b q1] assms(3) have q2: "Q s2" by blast
          show ?thesis
          proof (cases r2)
            case (Inl e)
            with 1(2) True h a b q2 \<open>r1 = Inr icnt1\<close> show ?thesis by auto
          next
            case r2: (Inr icnt2)
            with 1(2) True h a b Inr obtain s3 r3 where
              c: "passLoop (processTransactions H) icnt2 s2 = Some (s3, r3)"
              by (auto split: option.splits)
            from passLoop_invariant [of _ _ _ _ _ Q, OF c q2] assms(4) have q3: "Q s3" by blast
            show ?thesis
            proof (cases r3)
              case (Inl e)
              with 1(2) True h a b c q3 Inr r2 show ?thesis by auto
            next
              case r3: (Inr icnt3)
              with 1(2) True h a b c Inr r2 have "loop H (icnt3 + 1) s3 = Some y"
                by auto
              from 1(1) [OF this] q3 show ?thesis by simp
            qed
          qed
        qed
      qed
    qed
  qed
  from this [OF assms(1)] assms(2) show ?thesis by simp
qed

subsection \<open>Sweeps over drained tables\<close>




text \<open>With driver failures, a sweep over drained tables still returns and changes no table.\<close>

lemma processOutputs_drained:
  assumes "claimOutputs typ (tables s) = []"
  obtains s' e where "processOutputs H typ s = (s', Inl e)" "tables s' = tables s"
    | s' where "processOutputs H typ s = (s', Inr 0)" "tables s' = tables s"
proof (cases "processOutputs H typ s")
  case (Pair s' r)
  show ?thesis
  proof (cases r)
    case (Inl e)
    with Pair processOutputs_error [of H "typ" s s' e] that(1) show ?thesis by simp
  next
    case (Inr n)
    with Pair processOutputs_count [of H "typ" s s' n] assms have "n = 0" by simp
    with Pair Inr processOutputs_empty [of H "typ" s s'] that(2) show ?thesis by simp
  qed
qed

lemma processTransactions_drained:
  assumes "claimTransactions (tables s) = []"
  obtains s' e where "processTransactions H s = (s', Inl e)" "tables s' = tables s"
    | s' where "processTransactions H s = (s', Inr 0)" "tables s' = tables s"
proof (cases "processTransactions H s")
  case (Pair s' r)
  show ?thesis
  proof (cases r)
    case (Inl e)
    with Pair processTransactions_error [of H s s' e] that(1) show ?thesis by simp
  next
    case (Inr n)
    with Pair processTransactions_count [of H s s' n] assms have "n = 0" by simp
    with Pair Inr processTransactions_empty [of H s s'] that(2) show ?thesis by simp
  qed
qed

lemma sweeps_drained:
  assumes "drained (tables s)"
  shows "\<exists>s' r. sweeps H icnt s = Some (s', r) \<and> tables s' = tables s"
  using assms
proof (induction "10 - icnt" arbitrary: icnt s)
  case 0
  then show ?case by (simp add: sweeps_done)
next
  case (Suc n)
  from Suc.hyps(2) have i: "icnt < 10" "n = 10 - (icnt + 1)" by simp_all
  from Suc.prems have d: "claimOutputs processTypeOut (tables s) = []"
    "claimOutputs processTypeIn (tables s) = []" "claimTransactions (tables s) = []"
    by (simp_all add: drained_def)
  from d(1) show ?case
  proof (rule processOutputs_drained [of processTypeOut s H])
    fix s1 e assume "processOutputs H processTypeOut s = (s1, Inl e)" "tables s1 = tables s"
    then show ?thesis
      by (subst sweeps.simps) (simp add: i(1) passLoop_error)
  next
    fix s1 assume 1: "processOutputs H processTypeOut s = (s1, Inr 0)" and t1: "tables s1 = tables s"
    then have a: "passLoop (processOutputs H processTypeOut) icnt s = Some (s1, Inr icnt)"
      by (simp add: passLoop_small RowLintValue_def)
    from d(2) t1 have "claimOutputs processTypeIn (tables s1) = []" by simp
    then show ?thesis
    proof (rule processOutputs_drained [of processTypeIn s1 H])
      fix s2 e assume "processOutputs H processTypeIn s1 = (s2, Inl e)" "tables s2 = tables s1"
      then show ?thesis
        by (subst sweeps.simps) (simp add: i(1) a t1 passLoop_error)
    next
      fix s2 assume 2: "processOutputs H processTypeIn s1 = (s2, Inr 0)" and t2: "tables s2 = tables s1"
      then have b: "passLoop (processOutputs H processTypeIn) icnt s1 = Some (s2, Inr icnt)"
        by (simp add: passLoop_small RowLintValue_def)
      from d(3) t1 t2 have "claimTransactions (tables s2) = []" by simp
      then show ?thesis
      proof (rule processTransactions_drained [of s2 H])
        fix s3 e assume "processTransactions H s2 = (s3, Inl e)" "tables s3 = tables s2"
        then show ?thesis
          by (subst sweeps.simps) (simp add: i(1) a b t1 t2 passLoop_error)
      next
        fix s3 assume 3: "processTransactions H s2 = (s3, Inr 0)" and t3: "tables s3 = tables s2"
        then have c: "passLoop (processTransactions H) icnt s2 = Some (s3, Inr icnt)"
          by (simp add: passLoop_small RowLintValue_def)
        from Suc.prems t1 t2 t3 have "drained (tables s3)" by simp
        from Suc.hyps(1) [OF i(2) this] t1 t2 t3 show ?thesis
          by (subst sweeps.simps) (simp add: i(1) a b c)
      qed
    qed
  qed
qed



section \<open>Iterations of the accumulation loop\<close>




section \<open>A second run\<close>




section \<open>The retry loop\<close>

lemma retryLoop_attempts:
  assumes "\<forall>i<N. Accumulate H (ss i) = Some (ss (Suc i), Some (es i)) \<and>
                  Contains (es i) DeadlockDBErrorMessage"
    and "Accumulate H (ss N) = Some (s', err)"
    and "\<forall>e. err = Some e \<longrightarrow> \<not> Contains e DeadlockDBErrorMessage"
  shows "retryLoop H k (ss 0) = Some (s', err, k + N)"
  using assms
proof (induction N arbitrary: ss es k)
  case 0
  then show ?case
    by (subst retryLoop.simps) (auto split: option.splits)
next
  case (Suc N)
  from Suc.prems(1) have first: "Accumulate H (ss 0) = Some (ss (Suc 0), Some (es 0))"
    "Contains (es 0) DeadlockDBErrorMessage"
    by auto
  have "retryLoop H (k + 1) ((ss \<circ> Suc) 0) = Some (s', err, (k + 1) + N)"
  proof (rule Suc.IH [of "ss \<circ> Suc" "es \<circ> Suc"])
    show "\<forall>i<N. Accumulate H ((ss \<circ> Suc) i) = Some ((ss \<circ> Suc) (Suc i), Some ((es \<circ> Suc) i)) \<and>
                Contains ((es \<circ> Suc) i) DeadlockDBErrorMessage"
      using Suc.prems(1) by simp
    show "Accumulate H ((ss \<circ> Suc) N) = Some (s', err)"
      using Suc.prems(2) by simp
    show "\<forall>e. err = Some e \<longrightarrow> \<not> Contains e DeadlockDBErrorMessage"
      by (rule Suc.prems(3))
  qed
  with first show ?case
    by (subst retryLoop.simps) simp
qed

text \<open>
  C3. Let the first \<open>N\<close> calls of \<^verbatim>\<open>Accumulate\<close> by the background task fail with errors that
  contain \<^verbatim>\<open>"Deadlock found"\<close>, each call starting from the session the one before left
  (\<open>ss 0\<close>, \<open>ss 1\<close>, ...), and let call \<open>N + 1\<close> return \<^verbatim>\<open>nil\<close> or an error without that
  substring. Then, for any \<open>N\<close>, the task ends with that call: it has slept \<open>N\<close> times 1 ms, its
  session is the one call \<open>N + 1\<close> left, and it has logged one warning if that call failed
  and nothing otherwise. The result of the task carries no error, and \<^verbatim>\<open>Run\<close> returns
  nothing.
\<close>

theorem C3_deadlock_retry:
  assumes "\<forall>i<N. Accumulate H (ss i) = Some (ss (Suc i), Some (es i)) \<and>
                  Contains (es i) DeadlockDBErrorMessage"
    and "Accumulate H (ss N) = Some (s', err)"
    and "\<forall>e. err = Some e \<longrightarrow> \<not> Contains e DeadlockDBErrorMessage"
  shows "task H (ss 0) =
           Some \<lparr>finalSession = s', sleptMs = N,
                 warnings = (case err of None \<Rightarrow> [] | Some e \<Rightarrow> [''Accumulate '' @ e])\<rparr>"
  using retryLoop_attempts [OF assms, of 0] by (simp add: task_def)

theorem C3_deadlock_retry_witness:
  "map_option sleptMs (task sampleHash (freshSession scenarioOne (deadlockAtCommit @ deadlockAtCommit))) = Some 2 \<and>
   map_option warnings (task sampleHash (freshSession scenarioOne (deadlockAtCommit @ deadlockAtCommit))) = Some [] \<and>
   map_option sleptMs (task sampleHash
      (freshSession scenarioOne (deadlockAtCommit @ [Some ''context deadline exceeded'']))) = Some 1 \<and>
   map_option warnings (task sampleHash
      (freshSession scenarioOne (deadlockAtCommit @ [Some ''context deadline exceeded'']))) =
     Some [''Accumulate context deadline exceeded'']"
proof -
  let ?d = "''Error 1213: Deadlock found when trying to get lock; try restarting transaction''"
  let ?s0 = "freshSession scenarioOne (deadlockAtCommit @ deadlockAtCommit)"
  let ?s1 = "freshSession scenarioOne deadlockAtCommit\<lparr>rollbacks := 1\<rparr>"
  let ?s2 = "freshSession scenarioOne []\<lparr>rollbacks := 2\<rparr>"
  let ?ss = "\<lambda>i::nat. if i = 0 then ?s0 else if i = 1 then ?s1 else ?s2"
  have c: "Contains ?d DeadlockDBErrorMessage" by code_simp
  have 0: "Accumulate sampleHash ?s0 = Some (?s1, Some ?d)" by code_simp
  have 1: "Accumulate sampleHash ?s1 = Some (?s2, Some ?d)" by code_simp
  have n: "Accumulate sampleHash ?s2 \<noteq> None" by code_simp
  have e: "snd (the (Accumulate sampleHash ?s2)) = None" by code_simp
  from n e have "Accumulate sampleHash ?s2 = Some (fst (the (Accumulate sampleHash ?s2)), None)"
    by (metis option.collapse prod.collapse)
  then have 2: "Accumulate sampleHash (?ss 2) = Some (fst (the (Accumulate sampleHash ?s2)), None)"
    by simp
  have "\<forall>i<2. Accumulate sampleHash (?ss i) = Some (?ss (Suc i), Some ((\<lambda>_. ?d) i)) \<and>
                Contains ((\<lambda>_. ?d) i) DeadlockDBErrorMessage"
    using 0 1 c by (auto simp: less_Suc_eq numeral_2_eq_2)
  from C3_deadlock_retry [OF this 2] have a: "map_option sleptMs (task sampleHash ?s0) = Some 2"
    "map_option warnings (task sampleHash ?s0) = Some []"
    by simp_all
  let ?t0 = "freshSession scenarioOne (deadlockAtCommit @ [Some ''context deadline exceeded''])"
  let ?t1 = "freshSession scenarioOne [Some ''context deadline exceeded'']\<lparr>rollbacks := 1\<rparr>"
  let ?t2 = "freshSession scenarioOne []\<lparr>rollbacks := 1\<rparr>"
  let ?ts = "\<lambda>i::nat. if i = 0 then ?t0 else ?t1"
  have 3: "Accumulate sampleHash ?t0 = Some (?t1, Some ?d)" by code_simp
  have 4: "Accumulate sampleHash (?ts 1) = Some (?t2, Some ''context deadline exceeded'')" by code_simp
  have "\<not> Contains ''context deadline exceeded'' DeadlockDBErrorMessage"
    by code_simp
  then have 5: "\<forall>e. Some ''context deadline exceeded'' = Some e \<longrightarrow> \<not> Contains e DeadlockDBErrorMessage"
    by simp
  have "\<forall>i<1. Accumulate sampleHash (?ts i) = Some (?ts (Suc i), Some ((\<lambda>_. ?d) i)) \<and>
                Contains ((\<lambda>_. ?d) i) DeadlockDBErrorMessage"
    using 3 c by simp
  from C3_deadlock_retry [OF this 4 5]
  have b: "map_option sleptMs (task sampleHash ?t0) = Some 1"
    "map_option warnings (task sampleHash ?t0) = Some [''Accumulate context deadline exceeded'']"
    by simp_all
  from a b show ?thesis by blast
qed

section \<open>The redemption gate\<close>

lemma claimOutputs_In_redeemed:
  "row \<in> set (claimOutputs processTypeIn db) \<Longrightarrow> rowID row \<in> set (avm_outputs_redeeming db)"
  by (auto simp: claimOutputs_def dest!: in_set_takeD split: if_splits)

lemma claimOutputs_In_gated:
  assumes "\<forall>x\<in>set (output_addresses_accumulate db).
             oa_processed_in x = 0 \<longrightarrow> oa_id x \<notin> set (avm_outputs_redeeming db)"
  shows "claimOutputs processTypeIn db = []"
proof (rule ccontr)
  assume "claimOutputs processTypeIn db \<noteq> []"
  then obtain row where "row \<in> set (claimOutputs processTypeIn db)"
    by (cases "claimOutputs processTypeIn db") auto
  then obtain x where "x \<in> set (output_addresses_accumulate db)" "oa_processed_in x = 0"
    "oa_id x \<in> set (avm_outputs_redeeming db)"
    by (auto simp: claimOutputs_def dest!: in_set_takeD split: if_splits)
  with assms show False by blast
qed

lemma filter_map_other:
  assumes "\<And>x. P (f x) = P x" and "\<And>x. P x \<Longrightarrow> f x = x"
  shows "filter P (map f xs) = filter P xs"
  by (induction xs) (simp_all add: assms)

lemma markOutput_other_id:
  assumes "rowID row \<noteq> i"
  shows "filter (\<lambda>x. oa_id x = i) (output_addresses_accumulate (markOutput typ row tx)) =
         filter (\<lambda>x. oa_id x = i) (output_addresses_accumulate tx)"
  unfolding markOutput_def using assms
  by (cases "typ") (simp_all add: filter_map_other)


lemma outputRows_In_other_id:
  assumes "outputRows H processTypeIn rows [] tx = ([], Inr tx')"
    and "\<forall>row\<in>set rows. rowID row \<noteq> i"
  shows "filter (\<lambda>x. oa_id x = i) (output_addresses_accumulate tx') =
         filter (\<lambda>x. oa_id x = i) (output_addresses_accumulate tx)"
proof (rule outputRows_invariant [OF assms(1)])
  show "filter (\<lambda>x. oa_id x = i) (output_addresses_accumulate tx) =
        filter (\<lambda>x. oa_id x = i) (output_addresses_accumulate tx)" ..
next
  fix row bs and tx0 :: database
  assume "filter (\<lambda>x. oa_id x = i) (output_addresses_accumulate tx0) =
          filter (\<lambda>x. oa_id x = i) (output_addresses_accumulate tx)"
    and "row \<in> set rows"
  with assms(2) show "filter (\<lambda>x. oa_id x = i)
      (output_addresses_accumulate
        (markOutput processTypeIn row (fold (updateBalance processTypeIn) bs (fold seedRow bs tx0)))) =
      filter (\<lambda>x. oa_id x = i) (output_addresses_accumulate tx)"
    by (simp add: markOutput_other_id)
qed

lemma processOutputs_In_other_id:
  assumes "processOutputs H processTypeIn s = (s', r)"
    and "i \<notin> set (avm_outputs_redeeming (tables s))"
  shows "filter (\<lambda>x. oa_id x = i) (output_addresses_accumulate (tables s')) =
         filter (\<lambda>x. oa_id x = i) (output_addresses_accumulate (tables s))"
proof (cases r)
  case (Inl e)
  with assms(1) processOutputs_error [of H processTypeIn s s' e] show ?thesis by simp
next
  case (Inr n)
  show ?thesis
  proof (cases "n = 0")
    case True
    with Inr assms(1) processOutputs_empty [of H processTypeIn s s'] show ?thesis by simp
  next
    case False
    with Inr assms(1) processOutputs_commit [of H processTypeIn s s' n]
    have "outputRows H processTypeIn (claimOutputs processTypeIn (tables s)) [] (tables s) =
            ([], Inr (tables s'))"
      by simp
    moreover have "\<forall>row\<in>set (claimOutputs processTypeIn (tables s)). rowID row \<noteq> i"
      using assms(2) by (auto dest: claimOutputs_In_redeemed)
    ultimately show ?thesis by (rule outputRows_In_other_id)
  qed
qed

text \<open>What every pass keeps of the staging rows: their place, key and \<open>processed_in\<close> flag
  when the output has no redemption record. The redemption records themselves stay.\<close>

lemma processOutputs_sources:
  assumes "processOutputs H typ s = (s', r)"
  shows "output_txs_accumulate (tables s') = output_txs_accumulate (tables s) \<and>
         avm_outputs (tables s') = avm_outputs (tables s) \<and>
         avm_output_addresses (tables s') = avm_output_addresses (tables s) \<and>
         avm_outputs_redeeming (tables s') = avm_outputs_redeeming (tables s)"
proof (cases r)
  case (Inl e)
  with assms(1) processOutputs_error [of H "typ" s s' e] show ?thesis by simp
next
  case (Inr n)
  show ?thesis
  proof (cases "n = 0")
    case True
    with Inr assms(1) processOutputs_empty [of H "typ" s s'] show ?thesis by simp
  next
    case False
    with Inr assms(1) processOutputs_commit [of H "typ" s s' n]
    have "outputRows H typ (claimOutputs typ (tables s)) [] (tables s) = ([], Inr (tables s'))"
      by simp
    then show ?thesis by (rule outputRows_frame)
  qed
qed

lemma processTransactions_sources:
  assumes "processTransactions H s = (s', r)"
  shows "output_addresses_accumulate (tables s') = output_addresses_accumulate (tables s) \<and>
         avm_outputs (tables s') = avm_outputs (tables s) \<and>
         avm_output_addresses (tables s') = avm_output_addresses (tables s) \<and>
         avm_outputs_redeeming (tables s') = avm_outputs_redeeming (tables s)"
proof (cases r)
  case (Inl e)
  with assms(1) processTransactions_error [of H s s' e] show ?thesis by simp
next
  case (Inr n)
  show ?thesis
  proof (cases "n = 0")
    case True
    with Inr assms(1) processTransactions_empty [of H s s'] show ?thesis by simp
  next
    case False
    with Inr assms processTransactions_effect [of H s s' n] obtain bs where
      "tables s' = fold markTransaction (claimTransactions (tables s))
                (fold updateTransactionCount bs (fold seedRow bs (tables s)))"
      by auto
    then show ?thesis by simp
  qed
qed

lemma markOutput_Out_in_flags:
  "map (\<lambda>x. (oa_id x, oa_address x, oa_processed_in x))
     (output_addresses_accumulate (markOutput processTypeOut row tx)) =
   map (\<lambda>x. (oa_id x, oa_address x, oa_processed_in x)) (output_addresses_accumulate tx)"
  by (simp add: markOutput_def comp_def if_distrib cong: if_cong)

lemma processOutputs_Out_in_flags:
  assumes "processOutputs H processTypeOut s = (s', r)"
  shows "map (\<lambda>x. (oa_id x, oa_address x, oa_processed_in x))
           (output_addresses_accumulate (tables s')) =
         map (\<lambda>x. (oa_id x, oa_address x, oa_processed_in x))
           (output_addresses_accumulate (tables s))"
proof (cases r)
  case (Inl e)
  with assms(1) processOutputs_error [of H processTypeOut s s' e] show ?thesis by simp
next
  case (Inr n)
  show ?thesis
  proof (cases "n = 0")
    case True
    with Inr assms(1) processOutputs_empty [of H processTypeOut s s'] show ?thesis by simp
  next
    case False
    with Inr assms(1) processOutputs_commit [of H processTypeOut s s' n]
    have "outputRows H processTypeOut (claimOutputs processTypeOut (tables s)) [] (tables s) =
            ([], Inr (tables s'))"
      by simp
    then show ?thesis
      by (rule outputRows_invariant) (simp_all add: markOutput_Out_in_flags)
  qed
qed

lemma filter_fst_map:
  "filter (\<lambda>t. fst t = i) (map (\<lambda>x. (oa_id x, oa_address x, oa_processed_in x)) xs) =
   map (\<lambda>x. (oa_id x, oa_address x, oa_processed_in x)) (filter (\<lambda>x. oa_id x = i) xs)"
  by (induction xs) simp_all

lemma Accumulate_gate:
  assumes "Accumulate H s = Some (s', e)"
  shows "avm_outputs_redeeming (tables s') = avm_outputs_redeeming (tables s) \<and>
         (\<forall>i. i \<notin> set (avm_outputs_redeeming (tables s)) \<longrightarrow>
            filter (\<lambda>t. fst t = i)
              (map (\<lambda>x. (oa_id x, oa_address x, oa_processed_in x))
                 (output_addresses_accumulate (tables s'))) =
            filter (\<lambda>t. fst t = i)
              (map (\<lambda>x. (oa_id x, oa_address x, oa_processed_in x))
                 (output_addresses_accumulate (tables s))))"
proof (rule sweeps_invariant [OF assms [unfolded Accumulate_def]])
  show "avm_outputs_redeeming (tables s) = avm_outputs_redeeming (tables s) \<and>
         (\<forall>i. i \<notin> set (avm_outputs_redeeming (tables s)) \<longrightarrow>
            filter (\<lambda>t. fst t = i)
              (map (\<lambda>x. (oa_id x, oa_address x, oa_processed_in x))
                 (output_addresses_accumulate (tables s))) =
            filter (\<lambda>t. fst t = i)
              (map (\<lambda>x. (oa_id x, oa_address x, oa_processed_in x))
                 (output_addresses_accumulate (tables s))))"
    by simp
next
  fix ty and a b :: session and r
  assume q: "avm_outputs_redeeming (tables a) = avm_outputs_redeeming (tables s) \<and>
         (\<forall>i. i \<notin> set (avm_outputs_redeeming (tables s)) \<longrightarrow>
            filter (\<lambda>t. fst t = i)
              (map (\<lambda>x. (oa_id x, oa_address x, oa_processed_in x))
                 (output_addresses_accumulate (tables a))) =
            filter (\<lambda>t. fst t = i)
              (map (\<lambda>x. (oa_id x, oa_address x, oa_processed_in x))
                 (output_addresses_accumulate (tables s))))"
    and p: "processOutputs H ty a = (b, r)"
  show "avm_outputs_redeeming (tables b) = avm_outputs_redeeming (tables s) \<and>
         (\<forall>i. i \<notin> set (avm_outputs_redeeming (tables s)) \<longrightarrow>
            filter (\<lambda>t. fst t = i)
              (map (\<lambda>x. (oa_id x, oa_address x, oa_processed_in x))
                 (output_addresses_accumulate (tables b))) =
            filter (\<lambda>t. fst t = i)
              (map (\<lambda>x. (oa_id x, oa_address x, oa_processed_in x))
                 (output_addresses_accumulate (tables s))))"
  proof (cases ty)
    case processTypeOut
    with p processOutputs_Out_in_flags [of H a b r] processOutputs_sources [OF p] q
    show ?thesis by simp
  next
    case processTypeIn
    with p processOutputs_In_other_id [of H a b r] processOutputs_sources [OF p] q
    show ?thesis by (simp add: filter_fst_map)
  qed
next
  fix a b :: session and r
  assume q: "avm_outputs_redeeming (tables a) = avm_outputs_redeeming (tables s) \<and>
         (\<forall>i. i \<notin> set (avm_outputs_redeeming (tables s)) \<longrightarrow>
            filter (\<lambda>t. fst t = i)
              (map (\<lambda>x. (oa_id x, oa_address x, oa_processed_in x))
                 (output_addresses_accumulate (tables a))) =
            filter (\<lambda>t. fst t = i)
              (map (\<lambda>x. (oa_id x, oa_address x, oa_processed_in x))
                 (output_addresses_accumulate (tables s))))"
    and p: "processTransactions H a = (b, r)"
  from processTransactions_sources [OF p] q
  show "avm_outputs_redeeming (tables b) = avm_outputs_redeeming (tables s) \<and>
         (\<forall>i. i \<notin> set (avm_outputs_redeeming (tables s)) \<longrightarrow>
            filter (\<lambda>t. fst t = i)
              (map (\<lambda>x. (oa_id x, oa_address x, oa_processed_in x))
                 (output_addresses_accumulate (tables b))) =
            filter (\<lambda>t. fst t = i)
              (map (\<lambda>x. (oa_id x, oa_address x, oa_processed_in x))
                 (output_addresses_accumulate (tables s))))"
    by simp
qed


text \<open>
  C9. The claim query of the IN direction selects only staging rows whose output has a
  redemption record. Whatever the IN pass returns, the staging rows of an output without
  redemption record are after it what they were before; when no staging row with
  \<open>processed_in = 0\<close> has a redemption record the pass changes no table at all. Over a whole
  run of \<^verbatim>\<open>Accumulate\<close> that returns, the redemption records stay and the staging rows of
  an output without one keep their place, key and \<open>processed_in\<close> flag; a run over tables
  with nothing to claim returns and changes no table.
\<close>

theorem C9_redemption_gate:
  "(\<forall>row\<in>set (claimOutputs processTypeIn db). rowID row \<in> set (avm_outputs_redeeming db)) \<and>
   (processOutputs H processTypeIn s = (s', r) \<longrightarrow>
      (\<forall>i. i \<notin> set (avm_outputs_redeeming (tables s)) \<longrightarrow>
         filter (\<lambda>x. oa_id x = i) (output_addresses_accumulate (tables s')) =
         filter (\<lambda>x. oa_id x = i) (output_addresses_accumulate (tables s)))) \<and>
   (processOutputs H processTypeIn s = (s', r) \<and>
    (\<forall>x\<in>set (output_addresses_accumulate (tables s)).
       oa_processed_in x = 0 \<longrightarrow> oa_id x \<notin> set (avm_outputs_redeeming (tables s))) \<longrightarrow>
      tables s' = tables s) \<and>
   (Accumulate H s = Some (s', e) \<longrightarrow>
      avm_outputs_redeeming (tables s') = avm_outputs_redeeming (tables s) \<and>
      (\<forall>i. i \<notin> set (avm_outputs_redeeming (tables s)) \<longrightarrow>
         filter (\<lambda>t. fst t = i)
           (map (\<lambda>x. (oa_id x, oa_address x, oa_processed_in x))
              (output_addresses_accumulate (tables s'))) =
         filter (\<lambda>t. fst t = i)
           (map (\<lambda>x. (oa_id x, oa_address x, oa_processed_in x))
              (output_addresses_accumulate (tables s))))) \<and>
   (drained (tables s) \<longrightarrow> (\<exists>s2 e2. Accumulate H s = Some (s2, e2) \<and> tables s2 = tables s))"
proof (intro conjI impI)
  show "\<forall>row\<in>set (claimOutputs processTypeIn db). rowID row \<in> set (avm_outputs_redeeming db)"
    by (auto dest: claimOutputs_In_redeemed)
next
  assume "processOutputs H processTypeIn s = (s', r)"
  then show "\<forall>i. i \<notin> set (avm_outputs_redeeming (tables s)) \<longrightarrow>
         filter (\<lambda>x. oa_id x = i) (output_addresses_accumulate (tables s')) =
         filter (\<lambda>x. oa_id x = i) (output_addresses_accumulate (tables s))"
    by (auto dest: processOutputs_In_other_id)
next
  assume a: "processOutputs H processTypeIn s = (s', r) \<and>
    (\<forall>x\<in>set (output_addresses_accumulate (tables s)).
       oa_processed_in x = 0 \<longrightarrow> oa_id x \<notin> set (avm_outputs_redeeming (tables s)))"
  then have "claimOutputs processTypeIn (tables s) = []"
    by (intro claimOutputs_In_gated) blast
  then show "tables s' = tables s"
  proof (rule processOutputs_drained [of processTypeIn s H])
    fix s1 e1 assume "processOutputs H processTypeIn s = (s1, Inl e1)" "tables s1 = tables s"
    with a show ?thesis by simp
  next
    fix s1 assume "processOutputs H processTypeIn s = (s1, Inr 0)" "tables s1 = tables s"
    with a show ?thesis by simp
  qed
next
  assume "Accumulate H s = Some (s', e)"
  from Accumulate_gate [OF this]
  show "avm_outputs_redeeming (tables s') = avm_outputs_redeeming (tables s)"
    and "\<forall>i. i \<notin> set (avm_outputs_redeeming (tables s)) \<longrightarrow>
         filter (\<lambda>t. fst t = i)
           (map (\<lambda>x. (oa_id x, oa_address x, oa_processed_in x))
              (output_addresses_accumulate (tables s'))) =
         filter (\<lambda>t. fst t = i)
           (map (\<lambda>x. (oa_id x, oa_address x, oa_processed_in x))
              (output_addresses_accumulate (tables s)))"
    by blast+
next
  assume "drained (tables s)"
  then show "\<exists>s2 e2. Accumulate H s = Some (s2, e2) \<and> tables s2 = tables s"
    unfolding Accumulate_def by (rule sweeps_drained)
qed

theorem C9_redemption_gate_witness:
  "claimOutputs processTypeIn scenarioThree = [] \<and>
   tables (fst (processOutputs sampleHash processTypeIn (freshSession scenarioThree []))) =
     scenarioThree \<and>
   (\<exists>s2 e2. Accumulate sampleHash (freshSession scenarioThree []) = Some (s2, e2) \<and>
             tables s2 = scenarioThree) \<and>
   claimOutputs processTypeIn scenarioTwo = [\<lparr>rowID = ''X'', rowAddress = ''A''\<rparr>] \<and>
   output_addresses_accumulate
     (tables (fst (processOutputs sampleHash processTypeIn (freshSession scenarioTwo [])))) =
     [\<lparr>oa_id = ''X'', oa_address = ''A'', oa_processed_out = 1, oa_processed_in = 1\<rparr>]"
proof -
  let ?s = "freshSession scenarioThree []"
  note t = C9_redemption_gate [where H = sampleHash and s = ?s]
  have g: "\<forall>x\<in>set (output_addresses_accumulate (tables ?s)).
       oa_processed_in x = 0 \<longrightarrow> oa_id x \<notin> set (avm_outputs_redeeming (tables ?s))"
    by (simp add: freshSession_def scenarioThree_def scenarioTwo_def)
  have d: "drained (tables ?s)"
    by (simp add: drained_def freshSession_def scenarioThree_def scenarioTwo_def
        claimOutputs_def claimTransactions_def)
  have a: "claimOutputs processTypeIn scenarioThree = []"
    by code_simp
  have "processOutputs sampleHash processTypeIn ?s =
      (fst (processOutputs sampleHash processTypeIn ?s), snd (processOutputs sampleHash processTypeIn ?s))"
    by simp
  with t [THEN conjunct2, THEN conjunct2, THEN conjunct1] g
  have "tables (fst (processOutputs sampleHash processTypeIn ?s)) = tables ?s"
    by blast
  then have b: "tables (fst (processOutputs sampleHash processTypeIn ?s)) = scenarioThree"
    by (simp add: freshSession_def)
  from t [THEN conjunct2, THEN conjunct2, THEN conjunct2, THEN conjunct2] d
  have c: "\<exists>s2 e2. Accumulate sampleHash ?s = Some (s2, e2) \<and> tables s2 = scenarioThree"
    by (simp add: freshSession_def)
  have e: "claimOutputs processTypeIn scenarioTwo = [\<lparr>rowID = ''X'', rowAddress = ''A''\<rparr>]"
    by code_simp
  have f: "output_addresses_accumulate
     (tables (fst (processOutputs sampleHash processTypeIn (freshSession scenarioTwo [])))) =
     [\<lparr>oa_id = ''X'', oa_address = ''A'', oa_processed_out = 1, oa_processed_in = 1\<rparr>]"
    by code_simp
  from a b c e f show ?thesis by blast
qed

section \<open>Admission of a run\<close>

lemma holdsLock_simps [simp]:
  "\<not> holdsLock Idle" "\<not> holdsLock Entry" "\<not> holdsLock WantLock"
  "holdsLock Locked" "holdsLock Checked" "holdsLock Incremented"
  "holdsLock Spawned" "holdsLock Rejected"
  by (simp_all add: holdsLock_def)

lemma admission_init: "admission handler0"
  by (simp add: admission_def handler0_def)

text \<open>A caller that does not hold the mutex moves to a point where it does not hold it.\<close>

lemma admission_outside:
  assumes "admission h" and "\<not> holdsLock (callers h i)" and "\<not> holdsLock p"
  shows "admission (h\<lparr>callers := (callers h)(i := p)\<rparr>)"
proof -
  from assms(1,2) have n: "locked h \<noteq> Some i" by (simp add: admission_def)
  have c: "locked h = Some k \<Longrightarrow> ((callers h)(i := p)) k = callers h k" for k
    using n by auto
  from assms(1) have a: "\<forall>j. holdsLock (callers h j) \<longleftrightarrow> locked h = Some j"
    "inflight h \<le> 1"
    "running h = int (inflight h) +
       (case locked h of None \<Rightarrow> 0 | Some i \<Rightarrow> if callers h i = Incremented then 1 else 0)"
    "case locked h of None \<Rightarrow> True
      | Some i \<Rightarrow> (callers h i = Checked \<longrightarrow> running h = 0) \<and>
                  (callers h i = Incremented \<longrightarrow> inflight h = 0)"
    by (simp_all add: admission_def)
  have 1: "\<forall>j. holdsLock (((callers h)(i := p)) j) \<longleftrightarrow> locked h = Some j"
    using a(1) assms(2,3) n by simp
  show ?thesis
    unfolding admission_def
  proof (intro conjI)
    show "\<forall>j. holdsLock (callers (h\<lparr>callers := (callers h)(i := p)\<rparr>) j) \<longleftrightarrow>
            locked (h\<lparr>callers := (callers h)(i := p)\<rparr>) = Some j"
      using 1 by simp
    show "inflight (h\<lparr>callers := (callers h)(i := p)\<rparr>) \<le> 1"
      using a(2) by simp
    show "running (h\<lparr>callers := (callers h)(i := p)\<rparr>) =
        int (inflight (h\<lparr>callers := (callers h)(i := p)\<rparr>)) +
        (case locked (h\<lparr>callers := (callers h)(i := p)\<rparr>) of None \<Rightarrow> 0
         | Some k \<Rightarrow> if callers (h\<lparr>callers := (callers h)(i := p)\<rparr>) k = Incremented then 1 else 0)"
      using a(3) c by (cases "locked h") simp_all
    show "case locked (h\<lparr>callers := (callers h)(i := p)\<rparr>) of None \<Rightarrow> True
      | Some k \<Rightarrow> (callers (h\<lparr>callers := (callers h)(i := p)\<rparr>) k = Checked \<longrightarrow>
                     running (h\<lparr>callers := (callers h)(i := p)\<rparr>) = 0) \<and>
                  (callers (h\<lparr>callers := (callers h)(i := p)\<rparr>) k = Incremented \<longrightarrow>
                     inflight (h\<lparr>callers := (callers h)(i := p)\<rparr>) = 0)"
      using a(4) c by (cases "locked h") simp_all
  qed
qed


text \<open>The steps of the caller that takes, holds and releases the mutex.\<close>

lemma admission_lock:
  assumes "admission h" and "callers h i = WantLock" and "locked h = None"
  shows "admission (h\<lparr>locked := Some i, callers := (callers h)(i := Locked)\<rparr>)"
  using assms by (simp add: admission_def)

lemma admission_holder:
  assumes "admission h" and "holdsLock (callers h i)"
  shows "locked h = Some i"
  using assms by (simp add: admission_def)

lemma admission_slow_busy:
  assumes "admission h" and "callers h i = Locked"
  shows "admission (h\<lparr>callers := (callers h)(i := Rejected)\<rparr>)"
proof -
  from assms have "locked h = Some i" by (simp add: admission_holder)
  with assms show ?thesis by (simp add: admission_def)
qed

lemma admission_slow_free:
  assumes "admission h" and "callers h i = Locked" and "running h = 0"
  shows "admission (h\<lparr>callers := (callers h)(i := Checked)\<rparr>)"
proof -
  from assms have "locked h = Some i" by (simp add: admission_holder)
  with assms show ?thesis by (simp add: admission_def)
qed

lemma admission_increment:
  assumes "admission h" and "callers h i = Checked"
  shows "admission (h\<lparr>running := running h + 1, callers := (callers h)(i := Incremented)\<rparr>)"
proof -
  from assms have "locked h = Some i" by (simp add: admission_holder)
  with assms show ?thesis by (simp add: admission_def)
qed

lemma admission_spawn:
  assumes "admission h" and "callers h i = Incremented"
  shows "admission (h\<lparr>callers := (callers h)(i := Spawned), inflight := inflight h + 1\<rparr>)"
proof -
  from assms have "locked h = Some i" by (simp add: admission_holder)
  with assms show ?thesis by (simp add: admission_def)
qed

lemma admission_unlock:
  assumes "admission h" and "callers h i = Spawned \<or> callers h i = Rejected"
  shows "admission (h\<lparr>locked := None, callers := (callers h)(i := Idle)\<rparr>)"
proof -
  from assms have l: "locked h = Some i" by (auto simp: admission_holder)
  from assms(1) have "\<forall>j. holdsLock (callers h j) \<longleftrightarrow> locked h = Some j"
    by (simp add: admission_def)
  with l have "\<forall>j. j \<noteq> i \<longrightarrow> \<not> holdsLock (callers h j)" by simp
  with assms l show ?thesis by (auto simp: admission_def)
qed

lemma admission_task_exit:
  assumes "admission h" and "0 < inflight h"
  shows "admission (h\<lparr>running := running h - 1, inflight := inflight h - 1\<rparr>)"
proof -
  from assms have 1: "inflight h = 1" by (simp add: admission_def)
  show ?thesis
  proof (cases "locked h")
    case None
    with assms 1 show ?thesis by (simp add: admission_def)
  next
    case (Some i)
    with assms(1) 1 have "callers h i \<noteq> Incremented" by (auto simp: admission_def)
    with assms 1 Some show ?thesis by (simp add: admission_def)
  qed
qed

lemma admission_step:
  assumes "step h h'" and "admission h"
  shows "admission h'"
  using assms(1)
proof (cases rule: step.cases)
  case (call i)
  with assms(2) show ?thesis by (simp add: admission_outside)
next
  case (fast_busy i)
  with assms(2) show ?thesis by (simp add: admission_outside)
next
  case (fast_free i)
  with assms(2) show ?thesis by (simp add: admission_outside)
next
  case (lock i)
  with assms(2) show ?thesis by (simp add: admission_lock)
next
  case (slow_busy i)
  with assms(2) show ?thesis by (simp add: admission_slow_busy)
next
  case (slow_free i)
  with assms(2) show ?thesis by (simp add: admission_slow_free)
next
  case (increment i)
  with assms(2) show ?thesis by (simp add: admission_increment)
next
  case (spawn i)
  with assms(2) admission_spawn [of h i] show ?thesis by simp
next
  case (unlock i)
  with assms(2) show ?thesis by (simp add: admission_unlock)
next
  case task_return
  with assms(2) admission_task_exit [of h] show ?thesis by simp
next
  case task_panic
  with assms(2) admission_task_exit [of h] show ?thesis by simp
qed

lemma reachable_admission: "reachable h \<Longrightarrow> admission h"
  by (induction rule: reachable.induct) (auto intro: admission_init admission_step)

lemma step_fast_path:
  assumes "step h h'" and "callers h i = Entry" and "running h \<noteq> 0" and "callers h' i \<noteq> Entry"
  shows "callers h' i = Idle \<and> inflight h' = inflight h \<and> running h' = running h"
  using assms by (cases rule: step.cases) (auto split: if_splits)

lemma step_slow_path:
  assumes "step h h'" and "callers h i = Locked" and "running h \<noteq> 0" and "callers h' i \<noteq> Locked"
  shows "callers h' i = Rejected \<and> inflight h' = inflight h \<and> running h' = running h"
  using assms by (cases rule: step.cases) (auto split: if_splits)

lemma step_spawn:
  assumes "step h h'" and "admission h" and "inflight h < inflight h'"
  shows "running h = 1 \<and> running h' = 1 \<and> inflight h = 0 \<and> inflight h' = 1"
  using assms(1)
proof (cases rule: step.cases)
  case (spawn i)
  with assms(2) have "locked h = Some i" by (simp add: admission_holder)
  with spawn assms(2) show ?thesis by (simp add: admission_def)
qed (use assms(3) in auto)

lemma step_exit:
  assumes "step h h'" and "inflight h' < inflight h"
  shows "running h' = running h - 1"
  using assms by (cases rule: step.cases) auto


text \<open>
  C2. In every state that the callers of \<^verbatim>\<open>Run\<close> and the background tasks can reach, in
  any interleaving of their atomic steps, at most one task is in flight. The counter is
  the number of tasks in flight, plus one while the caller that holds the mutex is between
  its increment and its \<^verbatim>\<open>go\<close> statement; the callers at the points between \<^verbatim>\<open>Lock\<close> and
  \<^verbatim>\<open>Unlock\<close> are exactly the one recorded with the mutex. A caller that leaves the first
  load, or the second load under the mutex, while the counter is not zero returns without
  touching the counter or starting a task. A task is started only when the counter has been
  incremented to 1, and a task that ends, by return or by panic, decrements it.
\<close>

theorem C2_at_most_one_task_in_flight:
  assumes "reachable h"
  shows "inflight h \<le> 1 \<and>
         running h = int (inflight h) +
           (case locked h of None \<Rightarrow> 0 | Some i \<Rightarrow> if callers h i = Incremented then 1 else 0) \<and>
         (\<forall>j. holdsLock (callers h j) \<longleftrightarrow> locked h = Some j) \<and>
         (\<forall>h' i. step h h' \<and> callers h i = Entry \<and> running h \<noteq> 0 \<and> callers h' i \<noteq> Entry \<longrightarrow>
            callers h' i = Idle \<and> inflight h' = inflight h \<and> running h' = running h) \<and>
         (\<forall>h' i. step h h' \<and> callers h i = Locked \<and> running h \<noteq> 0 \<and> callers h' i \<noteq> Locked \<longrightarrow>
            callers h' i = Rejected \<and> inflight h' = inflight h \<and> running h' = running h) \<and>
         (\<forall>h'. step h h' \<and> inflight h < inflight h' \<longrightarrow>
            running h = 1 \<and> running h' = 1 \<and> inflight h = 0 \<and> inflight h' = 1) \<and>
         (\<forall>h'. step h h' \<and> inflight h' < inflight h \<longrightarrow> running h' = running h - 1)"
proof -
  from assms have a: "admission h" by (rule reachable_admission)
  then have "inflight h \<le> 1"
    and "running h = int (inflight h) +
           (case locked h of None \<Rightarrow> 0 | Some i \<Rightarrow> if callers h i = Incremented then 1 else 0)"
    and "\<forall>j. holdsLock (callers h j) \<longleftrightarrow> locked h = Some j"
    by (simp_all add: admission_def)
  moreover have "\<forall>h' i. step h h' \<and> callers h i = Entry \<and> running h \<noteq> 0 \<and> callers h' i \<noteq> Entry \<longrightarrow>
            callers h' i = Idle \<and> inflight h' = inflight h \<and> running h' = running h"
    using step_fast_path by blast
  moreover have "\<forall>h' i. step h h' \<and> callers h i = Locked \<and> running h \<noteq> 0 \<and> callers h' i \<noteq> Locked \<longrightarrow>
            callers h' i = Rejected \<and> inflight h' = inflight h \<and> running h' = running h"
    using step_slow_path by blast
  moreover have "\<forall>h'. step h h' \<and> inflight h < inflight h' \<longrightarrow>
            running h = 1 \<and> running h' = 1 \<and> inflight h = 0 \<and> inflight h' = 1"
    using step_spawn a by blast
  moreover have "\<forall>h'. step h h' \<and> inflight h' < inflight h \<longrightarrow> running h' = running h - 1"
    using step_exit by blast
  ultimately show ?thesis by blast
qed

text \<open>
  Two concurrent calls: both pass the first load while the counter is zero; the first takes
  the mutex, passes the second load, increments and starts the task; the second is still
  waiting for the mutex, and the second load will turn it away.
\<close>

theorem C2_at_most_one_task_in_flight_witness:
  "reachable \<lparr>running = 1, locked = Some 0,
              callers = (\<lambda>_. Idle)(0 := Spawned, Suc 0 := WantLock), inflight = 1\<rparr> \<and>
   inflight \<lparr>running = 1, locked = Some 0,
             callers = (\<lambda>_. Idle)(0 := Spawned, Suc 0 := WantLock), inflight = 1\<rparr> \<le> 1 \<and>
   reachable \<lparr>running = 1, locked = None,
              callers = (\<lambda>_. Idle)(0 := Idle, Suc 0 := Idle), inflight = 1\<rparr>"
proof -
  let ?c0 = "\<lambda>_::nat. Idle"
  have "reachable \<lparr>running = 0, locked = None, callers = ?c0, inflight = 0\<rparr>"
    using reach_init by (simp add: handler0_def)
  from reach_step [OF this call [of _ 0]]
  have "reachable \<lparr>running = 0, locked = None, callers = ?c0(0 := Entry), inflight = 0\<rparr>"
    by simp
  from reach_step [OF this call [of _ "Suc 0"]]
  have "reachable \<lparr>running = 0, locked = None,
          callers = ?c0(0 := Entry, Suc 0 := Entry), inflight = 0\<rparr>"
    by simp
  from reach_step [OF this fast_free [of _ 0]]
  have "reachable \<lparr>running = 0, locked = None,
          callers = ?c0(0 := WantLock, Suc 0 := Entry), inflight = 0\<rparr>"
    by (simp add: fun_upd_twist)
  from reach_step [OF this fast_free [of _ "Suc 0"]]
  have "reachable \<lparr>running = 0, locked = None,
          callers = ?c0(0 := WantLock, Suc 0 := WantLock), inflight = 0\<rparr>"
    by simp
  from reach_step [OF this lock [of _ 0]]
  have "reachable \<lparr>running = 0, locked = Some 0,
          callers = ?c0(0 := Locked, Suc 0 := WantLock), inflight = 0\<rparr>"
    by (simp add: fun_upd_twist)
  from reach_step [OF this slow_free [of _ 0]]
  have "reachable \<lparr>running = 0, locked = Some 0,
          callers = ?c0(0 := Checked, Suc 0 := WantLock), inflight = 0\<rparr>"
    by (simp add: fun_upd_twist)
  from reach_step [OF this increment [of _ 0]]
  have "reachable \<lparr>running = 1, locked = Some 0,
          callers = ?c0(0 := Incremented, Suc 0 := WantLock), inflight = 0\<rparr>"
    by (simp add: fun_upd_twist)
  from reach_step [OF this spawn [of _ 0]]
  have r: "reachable \<lparr>running = 1, locked = Some 0,
          callers = ?c0(0 := Spawned, Suc 0 := WantLock), inflight = 1\<rparr>"
    by (simp add: fun_upd_twist)
  from reach_step [OF this unlock [of _ 0]]
  have "reachable \<lparr>running = 1, locked = None,
          callers = ?c0(0 := Idle, Suc 0 := WantLock), inflight = 1\<rparr>"
    by (simp add: fun_upd_twist)
  from reach_step [OF this lock [of _ "Suc 0"]]
  have "reachable \<lparr>running = 1, locked = Some (Suc 0),
          callers = ?c0(0 := Idle, Suc 0 := Locked), inflight = 1\<rparr>"
    by simp
  from reach_step [OF this slow_busy [of _ "Suc 0"]]
  have "reachable \<lparr>running = 1, locked = Some (Suc 0),
          callers = ?c0(0 := Idle, Suc 0 := Rejected), inflight = 1\<rparr>"
    by simp
  from reach_step [OF this unlock [of _ "Suc 0"]]
  have e: "reachable \<lparr>running = 1, locked = None,
          callers = ?c0(0 := Idle, Suc 0 := Idle), inflight = 1\<rparr>"
    by simp
  from C2_at_most_one_task_in_flight [OF r]
  have "inflight \<lparr>running = 1, locked = Some 0,
             callers = ?c0(0 := Spawned, Suc 0 := WantLock), inflight = 1\<rparr> \<le> 1"
    by blast
  with r e show ?thesis by blast
qed

section \<open>Conservation\<close>

lemma Accumulate_conservation:
  assumes "Accumulate H s = Some (s', r)"
    and "primaryKeys (tables s)" and "conservation H (tables s)"
  shows "primaryKeys (tables s') \<and> conservation H (tables s')"
proof (rule sweeps_invariant [OF assms(1) [unfolded Accumulate_def]])
  show "primaryKeys (tables s) \<and> conservation H (tables s)"
    using assms(2,3) by simp
next
  fix ty and a b :: session and e
  assume "primaryKeys (tables a) \<and> conservation H (tables a)" "processOutputs H ty a = (b, e)"
  then show "primaryKeys (tables b) \<and> conservation H (tables b)"
    using processOutputs_conservation [of H ty a b e] by simp
next
  fix a b :: session and e
  assume "primaryKeys (tables a) \<and> conservation H (tables a)" "processTransactions H a = (b, e)"
  then show "primaryKeys (tables b) \<and> conservation H (tables b)"
    using processTransactions_conservation [of H a b e] by simp
qed

text \<open>
  C1. Let the tables have their primary keys. If conservation (I4) holds when
  \<^verbatim>\<open>Accumulate\<close> starts, as it does when no staging row is flagged and the aggregate table is
  empty, then it holds when \<^verbatim>\<open>Accumulate\<close> returns, with or without an error: for every
  aggregate row, \<open>total_received\<close> and \<open>total_sent\<close> are the sums of the amounts of the
  outputs of its key whose \<open>processed_out\<close>, respectively \<open>processed_in\<close>, is 1,
  \<open>utxo_count\<close> is the count of the former minus the count of the latter, and
  \<open>transaction_count\<close> is the count of the rows of \<^verbatim>\<open>output_txs_accumulate\<close> of its key with
  \<open>processed = 1\<close>; and for a key without aggregate row these are all zero.
\<close>

theorem C1_conservation:
  assumes "Accumulate H s = Some (s', r)" and "primaryKeys (tables s)"
  shows "(conservation H (tables s) \<longrightarrow> conservation H (tables s')) \<and>
         ((\<forall>x\<in>set (output_addresses_accumulate (tables s)).
              oa_processed_out x = 0 \<and> oa_processed_in x = 0) \<and>
          (\<forall>x\<in>set (output_txs_accumulate (tables s)). ot_processed x = 0) \<and>
          accumulate_balances (tables s) = [] \<longrightarrow> conservation H (tables s'))"
  using Accumulate_conservation [OF assms] fresh_conservation [of "tables s" H] by blast

theorem C1_conservation_witness:
  "primaryKeys scenarioOne \<and>
   snd (the (Accumulate sampleHash (freshSession scenarioOne []))) = None \<and>
   conservation sampleHash (tables (fst (the (Accumulate sampleHash (freshSession scenarioOne []))))) \<and>
   accumulate_balances (tables (fst (the (Accumulate sampleHash (freshSession scenarioOne []))))) =
     [\<lparr>ID = ''C:S:A'', ChainID = ''C'', AssetID = ''S'', Address = ''A'',
       TransactionCount = 3, TotalReceived = 10, TotalSent = 0, UtxoCount = 1\<rparr>] \<and>
   primaryKeys scenarioTwo \<and> conservation sampleHash scenarioTwo \<and>
   conservation sampleHash (tables (fst (the (Accumulate sampleHash (freshSession scenarioTwo []))))) \<and>
   accumulate_balances (tables (fst (the (Accumulate sampleHash (freshSession scenarioTwo []))))) =
     [\<lparr>ID = ''C:S:A'', ChainID = ''C'', AssetID = ''S'', Address = ''A'',
       TransactionCount = 3, TotalReceived = 10, TotalSent = 10, UtxoCount = 0\<rparr>]"
proof -
  let ?one = "freshSession scenarioOne []"
  let ?two = "freshSession scenarioTwo []"
  have p1: "primaryKeys scenarioOne"
    by (simp add: primaryKeys_def scenarioOne_def)
  have p2: "primaryKeys scenarioTwo"
    by (simp add: primaryKeys_def scenarioTwo_def)
  have f1: "(\<forall>x\<in>set (output_addresses_accumulate (tables ?one)).
              oa_processed_out x = 0 \<and> oa_processed_in x = 0) \<and>
          (\<forall>x\<in>set (output_txs_accumulate (tables ?one)). ot_processed x = 0) \<and>
          accumulate_balances (tables ?one) = []"
    by (simp add: freshSession_def scenarioOne_def)
  have n1: "Accumulate sampleHash ?one \<noteq> None" and e1: "snd (the (Accumulate sampleHash ?one)) = None"
    by code_simp+
  then have r1: "Accumulate sampleHash ?one = Some (fst (the (Accumulate sampleHash ?one)), None)"
    by (metis option.collapse prod.collapse)
  from C1_conservation [OF r1] p1 f1
  have c1: "conservation sampleHash (tables (fst (the (Accumulate sampleHash ?one))))"
    by (simp add: freshSession_def)
  have b1: "accumulate_balances (tables (fst (the (Accumulate sampleHash ?one)))) =
     [\<lparr>ID = ''C:S:A'', ChainID = ''C'', AssetID = ''S'', Address = ''A'',
       TransactionCount = 3, TotalReceived = 10, TotalSent = 0, UtxoCount = 1\<rparr>]"
    by code_simp
  have "tables (fst (the (Accumulate sampleHash ?one))) = scenarioTwo\<lparr>avm_outputs_redeeming := []\<rparr>"
    by code_simp
  with c1 have "conservation sampleHash (scenarioTwo\<lparr>avm_outputs_redeeming := []\<rparr>)"
    by simp
  then have c2: "conservation sampleHash scenarioTwo"
    by (subst (asm) conservation_cong [of _ scenarioTwo]) simp_all
  have n2: "Accumulate sampleHash ?two \<noteq> None"
    by code_simp
  then have r2: "Accumulate sampleHash ?two =
      Some (fst (the (Accumulate sampleHash ?two)), snd (the (Accumulate sampleHash ?two)))"
    by simp
  from C1_conservation [OF r2] p2 c2
  have c3: "conservation sampleHash (tables (fst (the (Accumulate sampleHash ?two))))"
    by (simp add: freshSession_def)
  have b2: "accumulate_balances (tables (fst (the (Accumulate sampleHash ?two)))) =
     [\<lparr>ID = ''C:S:A'', ChainID = ''C'', AssetID = ''S'', Address = ''A'',
       TransactionCount = 3, TotalReceived = 10, TotalSent = 10, UtxoCount = 0\<rparr>]"
    by code_simp
  from p1 e1 c1 b1 p2 c2 c3 b2 show ?thesis by blast
qed

end
